theory Spec2Isabelle
  imports Complex_Main
begin

section \<open>The fuzzing harness \<open>src/bin/fuzz.py\<close>: data model\<close>

text \<open>
  The harness is a Python script. Commands, compass directions and tile kinds are Python
  strings there and stay \<^typ>\<open>string\<close>s here; a Python \<open>dict\<close> is an association list
  in insertion order (the order \<open>items()\<close> and iteration deliver), a missing key is
  \<open>KeyError\<close>. Python integers are \<^typ>\<open>int\<close>. Every exception the script can raise on
  its own data is a value of \<open>error\<close>, and a function that can raise returns
  \<open>error + 'a\<close> with \<open>Inl\<close> for the exception.
\<close>

datatype error =
    AssertionError
  | IndexError
  | KeyError
  | UnboundLocalError
  | KeyboardInterrupt
  | FileExistsError
  | FileNotFoundError
  | IsADirectoryError
  | NotADirectoryError
  | SameFileError

type_synonym 'v dict = "(string \<times> 'v) list"

text \<open>\<open>d[k]\<close> on a dict.\<close>

definition dict_get :: "'v dict \<Rightarrow> string \<Rightarrow> error + 'v" where
  "dict_get d k = (case map_of d k of None \<Rightarrow> Inl KeyError | Some v \<Rightarrow> Inr v)"

text \<open>\<open>xs[i]\<close> on a list: a negative index counts from the end, anything else out of
  range raises \<open>IndexError\<close>.\<close>

definition list_get :: "'a list \<Rightarrow> int \<Rightarrow> error + 'a" where
  "list_get xs i =
     (if 0 \<le> i \<and> i < int (length xs) then Inr (xs ! nat i)
      else if i < 0 \<and> 0 \<le> i + int (length xs) then Inr (xs ! nat (i + int (length xs)))
      else Inl IndexError)"

text \<open>\<open>range(n)\<close>: empty when \<open>n \<le> 0\<close>.\<close>

definition py_range :: "int \<Rightarrow> int list" where
  "py_range n = map int [0..<nat n]"

subsection \<open>Random draws\<close>

text \<open>
  The script draws from Python's module-level generator. The model takes each draw as an
  input. For \<open>random.choice(seq)\<close> and \<open>random.randint(a, b)\<close> the draw \<open>r\<close> is the value
  of the generator's \<open>randbelow(n)\<close>, uniform on \<open>0, \<dots>, n - 1\<close>; reducing it modulo
  \<open>n\<close> is the identity on that range and keeps the model defined on every natural number.
  \<open>random.choice\<close> of an empty sequence raises \<open>IndexError\<close>.
\<close>

definition random_choice :: "'a list \<Rightarrow> nat \<Rightarrow> error + 'a" where
  "random_choice xs r = (if xs = [] then Inl IndexError else Inr (xs ! (r mod length xs)))"

definition randint :: "int \<Rightarrow> int \<Rightarrow> nat \<Rightarrow> int" where
  "randint a b r = a + int (r mod nat (b - a + 1))"

subsection \<open>Key events (lines 23-29)\<close>

record key_event =
  code :: string
  alt :: bool
  ctrl :: bool
  shift :: bool

definition key_from_code :: "string \<Rightarrow> key_event" where
  "key_from_code key_code = \<lparr>code = key_code, alt = False, ctrl = False, shift = False\<rparr>"

subsection \<open>Surroundings Classifier (lines 32-80)\<close>

text \<open>The decoded reply of the game: \<open>{"width": w, "height": h, "cells": [...]}\<close>.\<close>

record message =
  width :: int
  height :: int
  cells :: "string list"

definition get_cell :: "message \<Rightarrow> int \<Rightarrow> int \<Rightarrow> error + string" where
  "get_cell message x y = list_get (cells message) (y * width message + x)"

definition types :: "string dict" where
  "types =
     [(''@'', ''player''),
      (''.'', ''empty''),
      (''#'', ''wall''),
      (''a'', ''monster''),
      (''h'', ''monster''),
      (''D'', ''monster''),
      (''S'', ''monster''),
      (''v'', ''monster''),
      (''%'', ''food''),
      (''i'', ''dose''),
      (''I'', ''dose''),
      (''+'', ''dose''),
      (''x'', ''dose'')]"

definition cell_type :: "string \<Rightarrow> string" where
  "cell_type cell = (case map_of types cell of Some t \<Rightarrow> t | None \<Rightarrow> ''unknown'')"

text \<open>
  The scan of lines 61-65: \<open>x\<close> runs over the columns in the outer loop, \<open>y\<close> over the
  rows in the inner one, and every agent cell found overwrites \<open>player_x, player_y\<close>.
  \<open>None\<close> is the state in which the two variables are still unbound.
\<close>

fun scan_column :: "message \<Rightarrow> int \<Rightarrow> int list \<Rightarrow> (int \<times> int) option \<Rightarrow> error + (int \<times> int) option" where
  "scan_column message x [] player = Inr player"
| "scan_column message x (y # ys) player =
     (case get_cell message x y of
        Inl e \<Rightarrow> Inl e
      | Inr cell \<Rightarrow>
          scan_column message x ys (if cell_type cell = ''player'' then Some (x, y) else player))"

fun scan_grid :: "message \<Rightarrow> int list \<Rightarrow> int list \<Rightarrow> (int \<times> int) option \<Rightarrow> error + (int \<times> int) option" where
  "scan_grid message [] ys player = Inr player"
| "scan_grid message (x # xs) ys player =
     (case scan_column message x ys player of
        Inl e \<Rightarrow> Inl e
      | Inr player' \<Rightarrow> scan_grid message xs ys player')"

text \<open>The dict literal of lines 68-79: its keys in source order, each with the offset of
  the neighbour it reads.\<close>

definition neighbours :: "(string \<times> int \<times> int) list" where
  "neighbours =
     [(''NW'', - 1, - 1), (''N'', 0, - 1), (''NE'', 1, - 1),
      (''W'', - 1, 0), (''E'', 1, 0),
      (''SW'', - 1, 1), (''S'', 0, 1), (''SE'', 1, 1)]"

fun classify :: "message \<Rightarrow> int \<Rightarrow> int \<Rightarrow> (string \<times> int \<times> int) list \<Rightarrow> error + string dict" where
  "classify message x y [] = Inr []"
| "classify message x y ((k, dx, dy) # rest) =
     (case get_cell message (x + dx) (y + dy) of
        Inl e \<Rightarrow> Inl e
      | Inr cell \<Rightarrow>
          (case classify message x y rest of
             Inl e \<Rightarrow> Inl e
           | Inr result \<Rightarrow> Inr ((k, cell_type cell) # result)))"

definition surroundings_from_message :: "message \<Rightarrow> error + string dict" where
  "surroundings_from_message message =
     (if int (length (cells message)) \<noteq> width message * height message then Inl AssertionError
      else
        (case scan_grid message (py_range (width message)) (py_range (height message)) None of
           Inl e \<Rightarrow> Inl e
         | Inr None \<Rightarrow> Inl UnboundLocalError
         | Inr (Some (x, y)) \<Rightarrow> classify message x y neighbours))"

subsection \<open>Decision Policy (lines 83-123)\<close>

definition directions :: "string list" where
  "directions = [''NW'', ''N'', ''NE'', ''W'', ''E'', ''SW'', ''S'', ''SE'']"

definition adjacent_directions :: "string list dict" where
  "adjacent_directions =
     [(''NW'', [''N'', ''W'']),
      (''N'', [''NE'', ''NW'']),
      (''NE'', [''N'', ''E'']),
      (''W'', [''NW'', ''SW'']),
      (''E'', [''NE'', ''SE'']),
      (''SW'', [''S'', ''W'']),
      (''S'', [''SE'', ''SW'']),
      (''SE'', [''S'', ''E''])]"

text \<open>\<open>tile in ('empty', 'monster')\<close>.\<close>

definition empty_or_monster :: "string \<Rightarrow> bool" where
  "empty_or_monster tile \<longleftrightarrow> tile = ''empty'' \<or> tile = ''monster''"

text \<open>\<open>[direction for direction, tile in display.items() if tile == kind]\<close>.\<close>

definition directions_of :: "string \<Rightarrow> string dict \<Rightarrow> string list" where
  "directions_of kind display = map fst (filter (\<lambda>(direction, tile). tile = kind) display)"

text \<open>
  The comprehension of lines 113-114,
  \<open>[direction for direction in adjacent_directions if display[direction] in ('empty', 'monster')]\<close>,
  run over the sequence it is given. Each \<open>display[direction]\<close> can raise \<open>KeyError\<close>.
\<close>

fun preferred_directions :: "string dict \<Rightarrow> string list \<Rightarrow> error + string list" where
  "preferred_directions display [] = Inr []"
| "preferred_directions display (direction # rest) =
     (case dict_get display direction of
        Inl e \<Rightarrow> Inl e
      | Inr tile \<Rightarrow>
          (case preferred_directions display rest of
             Inl e \<Rightarrow> Inl e
           | Inr ds \<Rightarrow> Inr (if empty_or_monster tile then direction # ds else ds)))"

text \<open>Lines 118-123: a walkable direction if there is one, any direction otherwise.\<close>

definition walkable_or_any :: "string dict \<Rightarrow> nat \<Rightarrow> error + string" where
  "walkable_or_any display r =
     (let walkable_directions = map fst (filter (\<lambda>(direction, tile). empty_or_monster tile) display)
      in if walkable_directions \<noteq> [] then random_choice walkable_directions r
         else random_choice directions r)"

text \<open>
  \<open>next_command previous_command display u r\<close>: \<open>u\<close> is the value \<open>random.random()\<close>
  returns if line 100 calls it, \<open>r\<close> the draw of the one \<open>random.choice\<close> the call makes.
  \<open>not display\<close> holds of \<open>None\<close> and of the empty dict, \<open>not previous_command\<close> of \<open>None\<close>
  and of the empty string. Iterating over the dict \<open>adjacent_directions\<close> (line 113)
  iterates over its keys.
\<close>

definition next_command :: "string option \<Rightarrow> string dict option \<Rightarrow> real \<Rightarrow> nat \<Rightarrow> error + string" where
  "next_command previous_command display u r =
     (case (display, previous_command) of
        (Some d, Some p) \<Rightarrow>
          if d = [] \<or> p = [] then random_choice directions r
          else if directions_of ''food'' d \<noteq> [] then random_choice (directions_of ''food'' d) r
          else if directions_of ''dose'' d \<noteq> [] then random_choice (directions_of ''dose'' d) r
          else if p \<in> set directions \<and> u \<le> 0.75 then
            (case dict_get d p of
               Inl e \<Rightarrow> Inl e
             | Inr tile \<Rightarrow>
                 if empty_or_monster tile then Inr p
                 else
                   (case preferred_directions d (map fst adjacent_directions) of
                      Inl e \<Rightarrow> Inl e
                    | Inr preferred \<Rightarrow>
                        if preferred \<noteq> [] then random_choice preferred r
                        else walkable_or_any d r))
          else walkable_or_any d r
      | _ \<Rightarrow> random_choice directions r)"

subsection \<open>Commands to key events (lines 126-139)\<close>

definition mapping :: "string dict" where
  "mapping =
     [(''NW'', ''NumPad7''),
      (''N'', ''Up''),
      (''NE'', ''NumPad9''),
      (''W'', ''Left''),
      (''E'', ''Right''),
      (''SW'', ''NumPad1''),
      (''S'', ''Down''),
      (''SE'', ''NumPad3''),
      (''Eat'', ''D1''),
      (''Quit'', ''Q'')]"

definition key_from_command :: "string \<Rightarrow> error + key_event" where
  "key_from_command command =
     (case dict_get mapping command of
        Inl e \<Rightarrow> Inl e
      | Inr key_code \<Rightarrow> Inr (key_from_code key_code))"

text \<open>The ten actions of the data model.\<close>

definition actions :: "string list" where
  "actions = directions @ [''Eat'', ''Quit'']"

subsection \<open>Printed output and the file system\<close>

text \<open>
  A printed line is its format string with the arguments of \<open>format\<close>. A path is the list
  of its components (\<open>os.path.join\<close> appends components). The world the harness acts on
  is the files with their contents, the directories, and what was printed so far.
\<close>

type_synonym path = "string list"

datatype fmt_arg = AInt int | AStr string | APath path

type_synonym line = "string \<times> fmt_arg list"

record world =
  files :: "path \<rightharpoonup> string"
  dirs :: "path set"
  stdout :: "line list"

definition print :: "line \<Rightarrow> world \<Rightarrow> world" where
  "print l w = w\<lparr>stdout := stdout w @ [l]\<rparr>"

text \<open>\<open>tempfile.NamedTemporaryFile(delete=False)\<close> followed by \<open>close()\<close>: a new, empty
  file; its name is chosen by the library and is an input here.\<close>

definition named_temporary_file :: "path \<Rightarrow> world \<Rightarrow> world" where
  "named_temporary_file name w = w\<lparr>files := (files w)(name \<mapsto> [])\<rparr>"

definition os_path_isdir :: "path \<Rightarrow> world \<Rightarrow> bool" where
  "os_path_isdir p w \<longleftrightarrow> p \<in> dirs w"

text \<open>\<open>os.mkdir\<close> creates one directory. The parent is resolved first: a parent that is a
  regular file gives \<open>NotADirectoryError\<close>, a missing parent \<open>FileNotFoundError\<close>; then
  the path must be unused. \<open>shutil.copyfile\<close> resolves the parent of its destination the
  same way.\<close>

definition os_mkdir :: "path \<Rightarrow> world \<Rightarrow> error + world" where
  "os_mkdir p w =
     (if butlast p \<in> dirs w then
        if p \<in> dirs w \<or> files w p \<noteq> None then Inl FileExistsError
        else Inr (w\<lparr>dirs := insert p (dirs w)\<rparr>)
      else if files w (butlast p) \<noteq> None then Inl NotADirectoryError
      else Inl FileNotFoundError)"

definition shutil_copyfile :: "path \<Rightarrow> path \<Rightarrow> world \<Rightarrow> error + world" where
  "shutil_copyfile src dst w =
     (case files w src of
        None \<Rightarrow> Inl FileNotFoundError
      | Some content \<Rightarrow>
          if src = dst then Inl SameFileError
          else if dst \<in> dirs w then Inl IsADirectoryError
          else if butlast dst \<in> dirs w then Inr (w\<lparr>files := (files w)(dst \<mapsto> content)\<rparr>)
          else if files w (butlast dst) \<noteq> None then Inl NotADirectoryError
          else Inl FileNotFoundError)"

definition os_unlink :: "path \<Rightarrow> world \<Rightarrow> error + world" where
  "os_unlink p w =
     (case files w p of
        None \<Rightarrow> Inl FileNotFoundError
      | Some content \<Rightarrow> Inr (w\<lparr>files := (files w)(p := None)\<rparr>))"

subsection \<open>Session Driver (lines 150-201)\<close>

text \<open>
  What the outside world supplies in one turn of the loop: the two random draws of
  \<open>next_command\<close>, whether the first \<open>select\<close> lists the socket as writable, and the
  decoded reply that arrives within the 3 seconds of the second \<open>select\<close> (\<open>None\<close> when
  none does).
\<close>

record turn_input =
  random_u :: real
  random_r :: nat
  writable :: bool
  reply :: "message option"

record session_env =
  max_turns_draw :: nat
  turn_inputs :: "int \<Rightarrow> turn_input"

text \<open>
  The variables of the loop. \<open>issued\<close> (every command computed so far) and \<open>sent\<close> (every
  key event handed to the socket so far) record what the loop does; \<open>printed\<close> is its
  output.
\<close>

record loop_state =
  turns :: int
  previous_command :: "string option"
  display :: "string dict option"
  issued :: "string list"
  sent :: "key_event list"
  printed :: "line list"

datatype session_end = QuitSent | NotWritable | TimedOut

datatype step = Continue loop_state | Stop "error + session_end" loop_state

text \<open>One iteration of the \<open>while True\<close> loop (lines 169-197).\<close>

definition turn :: "(int \<Rightarrow> turn_input) \<Rightarrow> int \<Rightarrow> loop_state \<Rightarrow> step" where
  "turn env max_turns st =
     (let st1 = st\<lparr>turns := turns st + 1\<rparr>;
          i = env (turns st1)
      in
        case (if turns st1 > max_turns then Inr ''Quit''
              else next_command (previous_command st1) (display st1) (random_u i) (random_r i)) of
          Inl e \<Rightarrow> Stop (Inl e) st1
        | Inr command \<Rightarrow>
            (case key_from_command command of
               Inl e \<Rightarrow> Stop (Inl e) (st1\<lparr>issued := issued st1 @ [command]\<rparr>)
             | Inr key \<Rightarrow>
                 let st2 = st1\<lparr>previous_command := Some command, issued := issued st1 @ [command]\<rparr>
                 in
                   if \<not> writable i then
                     Stop (Inr NotWritable)
                       (st2\<lparr>printed := printed st2 @ [(''ERROR: no writable sockets available'', [])]\<rparr>)
                   else
                     let st3 = st2\<lparr>sent := sent st2 @ [key]\<rparr>
                     in
                       if command = ''Quit'' then Stop (Inr QuitSent) st3
                       else
                         (case reply i of
                            None \<Rightarrow>
                              Stop (Inr TimedOut)
                                (st3\<lparr>printed := printed st3 @ [(''ERROR: Timed out waiting for a response'', [])]\<rparr>)
                          | Some message \<Rightarrow>
                              (case surroundings_from_message message of
                                 Inl e \<Rightarrow> Stop (Inl e) st3
                               | Inr d \<Rightarrow> Continue (st3\<lparr>display := Some d\<rparr>)))))"

function run_loop :: "(int \<Rightarrow> turn_input) \<Rightarrow> int \<Rightarrow> loop_state \<Rightarrow> (error + session_end) \<times> loop_state" where
  "run_loop env max_turns st =
     (case turn env max_turns st of
        Stop r st' \<Rightarrow> (r, st')
      | Continue st' \<Rightarrow> run_loop env max_turns st')"
  by pat_completeness auto
termination
proof (relation "measure (\<lambda>(env, max_turns, st). nat (max_turns - turns st))")
  show "wf (measure (\<lambda>(env, max_turns, st). nat (max_turns - turns st)))"
    by simp
next
  fix env :: "int \<Rightarrow> turn_input" and max_turns :: int and st st' :: loop_state
  assume "turn env max_turns st = Continue st'"
  then have "turns st' = turns st + 1 \<and> turns st + 1 \<le> max_turns"
    by (auto simp: turn_def Let_def split: if_splits sum.splits option.splits)
  then show "((env, max_turns, st'), (env, max_turns, st))
      \<in> measure (\<lambda>(env, max_turns, st). nat (max_turns - turns st))"
    by simp
qed

definition run_game :: "session_env \<Rightarrow> (error + session_end) \<times> loop_state" where
  "run_game env =
     (let max_turns = 200 + randint 10 200 (max_turns_draw env);
          st0 = \<lparr>turns = 0, previous_command = None, display = None, issued = [], sent = [],
                 printed = [(''Connecting to the game...'', []), (''... connected.'', [])]\<rparr>
      in
        case run_loop (turn_inputs env) max_turns st0 of
          (Inl e, st) \<Rightarrow> (Inl e, st)
        | (Inr ended, st) \<Rightarrow>
            (Inr ended, st\<lparr>printed := printed st @ [(''Closing the connection'', [])]\<rparr>))"

subsection \<open>Trial Orchestrator (lines 204-266)\<close>

datatype outcome = SUCCESS | FAILURE | UNEXPECTED

text \<open>
  What the outside world supplies in one trial: the exit code of the build, the name of
  the temporary replay file, what \<open>game.poll()\<close> returns after the one-second settle time
  and after the session (\<open>None\<close> while the game runs), the game's output streams, the
  inputs of the session, the trace the game writes to the replay file, the exit code and
  output streams of the replay, and the formatted time stamp. Launching a process is taken
  to succeed; the game's only effect on the file system is to write its trace.
\<close>

record trial_env =
  build_rc :: int
  replay_file :: path
  poll_settled :: "int option"
  game_stdout :: string
  game_stderr :: string
  session :: session_env
  poll_after :: "int option"
  trace :: string
  replay_rc :: int
  replay_stdout :: string
  replay_stderr :: string
  now :: string

text \<open>Lines 258-260: \<open>target_dir = os.path.join(os.curdir, 'replays', 'bugs')\<close> and
  \<open>bug_path = os.path.join(target_dir, now.strftime(...))\<close>.\<close>

definition target_dir :: path where
  "target_dir = [''.'', ''replays'', ''bugs'']"

definition bug_path :: "trial_env \<Rightarrow> path" where
  "bug_path env = target_dir @ [now env]"

text \<open>Lines 243-266: the replay phase and the classification by its exit code.\<close>

definition test_run_replay :: "trial_env \<Rightarrow> world \<Rightarrow> (error + outcome) \<times> world" where
  "test_run_replay env w =
     (if replay_rc env = 0 then
        let w1 = print (''Replay finished successfully. No need to store it.'', []) w
        in
          case os_unlink (replay_file env) w1 of
            Inl e \<Rightarrow> (Inl e, w1)
          | Inr w2 \<Rightarrow> (Inr SUCCESS, w2)
      else
        let w1 = print (''Return code: {}'', [AInt (replay_rc env)]) w;
            w2 = print (''stdout: {}'', [AStr (replay_stdout env)]) w1;
            w3 = print (''stderr: {}'', [AStr (replay_stderr env)]) w2;
            w4 = print (''Recording crash to: {}'', [APath (bug_path env)]) w3
        in
          case (if \<not> os_path_isdir target_dir w4 then os_mkdir target_dir w4 else Inr w4) of
            Inl e \<Rightarrow> (Inl e, w4)
          | Inr w5 \<Rightarrow>
              (case shutil_copyfile (replay_file env) (bug_path env) w5 of
                 Inl e \<Rightarrow> (Inl e, w5)
               | Inr w6 \<Rightarrow>
                   (case os_unlink (replay_file env) w6 of
                      Inl e \<Rightarrow> (Inl e, w6)
                    | Inr w7 \<Rightarrow> (Inr FAILURE, w7))))"

text \<open>Lines 230-241: the status of the game after the session. A game that still runs
  is killed; one that exited with a nonzero code ends the trial.\<close>

definition test_run_status :: "trial_env \<Rightarrow> world \<Rightarrow> (error + outcome) \<times> world" where
  "test_run_status env w =
     (let w1 = print (''The game ended, getting its status'', []) w
      in
        case poll_after env of
          None \<Rightarrow> test_run_replay env w1
        | Some rc \<Rightarrow>
            if rc = 0 then test_run_replay env (print (''Starting the replay'', []) w1)
            else
              (Inr UNEXPECTED,
               print (''stderr: {}'', [AStr (game_stderr env)])
                 (print (''stdout: {}'', [AStr (game_stdout env)])
                    (print (''Dose response finished with return code: {}'', [AInt rc]) w1))))"

text \<open>Lines 204-228, continued by the two parts above. The game writes its trace to the
  replay file once it is started.\<close>

definition test_run :: "trial_env \<Rightarrow> world \<Rightarrow> (error + outcome) \<times> world" where
  "test_run env w =
     (let w1 = print (''Building dose-response'', []) w
      in
        if build_rc env \<noteq> 0 then (Inr UNEXPECTED, print (''Error building dose-response'', []) w1)
        else
          let w2 = named_temporary_file (replay_file env) w1;
              w3 = print (''Running the game with a replay destination: {}'', [APath (replay_file env)]) w2;
              w4 = w3\<lparr>files := (files w3)(replay_file env \<mapsto> trace env)\<rparr>
          in
            case poll_settled env of
              None \<Rightarrow>
                let w5 = print (''Sending commands'', []) w4;
                    (r, st) = run_game (session env);
                    w6 = w5\<lparr>stdout := stdout w5 @ printed st\<rparr>
                in
                  (case r of
                     Inl e \<Rightarrow> (Inl e, w6)
                   | Inr ended \<Rightarrow> test_run_status env w6)
            | Some rc \<Rightarrow>
                (Inr UNEXPECTED,
                 print (''stderr: {}'', [AStr (game_stderr env)])
                   (print (''stdout: {}'', [AStr (game_stdout env)])
                      (print (''ERROR: game ended prematurely.'', []) w4))))"

subsection \<open>Results Aggregator (lines 269-296)\<close>

text \<open>
  The tally is the dict \<open>results\<close>. The batch is modelled over what its calls of
  \<open>test_run()\<close> do: \<open>trials i\<close> is the outcome the call in iteration \<open>i\<close> returns, or the
  exception that leaves it (\<open>KeyboardInterrupt\<close> for an interrupt from outside). The
  script's narration of the batch is not modelled. An exception other than
  \<open>KeyboardInterrupt\<close> is not caught, and the interpreter exits with status 1.
\<close>

record results =
  success :: int
  failure :: int
  unexpected :: int

fun count :: "outcome \<Rightarrow> results \<Rightarrow> results" where
  "count SUCCESS res = res\<lparr>success := success res + 1\<rparr>"
| "count FAILURE res = res\<lparr>failure := failure res + 1\<rparr>"
| "count UNEXPECTED res = res\<lparr>unexpected := unexpected res + 1\<rparr>"

fun run_tests :: "(nat \<Rightarrow> error + outcome) \<Rightarrow> nat list \<Rightarrow> results \<Rightarrow> error option \<times> results" where
  "run_tests trials [] res = (None, res)"
| "run_tests trials (i # rest) res =
     (case trials i of
        Inl e \<Rightarrow> (Some e, res)
      | Inr result \<Rightarrow> run_tests trials rest (count result res))"

definition return_code :: "results \<Rightarrow> int \<Rightarrow> int" where
  "return_code res test_count = (if success res = test_count then 0 else 1)"

definition main :: "int option \<Rightarrow> (nat \<Rightarrow> error + outcome) \<Rightarrow> int" where
  "main arg trials =
     (let test_count = (case arg of Some n \<Rightarrow> n | None \<Rightarrow> 20)
      in
        case run_tests trials [0..<nat test_count] \<lparr>success = 0, failure = 0, unexpected = 0\<rparr> of
          (None, res) \<Rightarrow> return_code res test_count
        | (Some e, res) \<Rightarrow> if e = KeyboardInterrupt then return_code res test_count else 1)"

subsection \<open>Predicates of the data model\<close>

text \<open>A Surroundings is a dict whose keys are exactly the eight compass directions; the
  display of the session is \<open>None\<close>, an empty dict or a Surroundings.\<close>

definition is_surroundings :: "string dict \<Rightarrow> bool" where
  "is_surroundings d \<longleftrightarrow> distinct (map fst d) \<and> set (map fst d) = set directions"

definition valid_display :: "string dict option \<Rightarrow> bool" where
  "valid_display disp \<longleftrightarrow> (case disp of None \<Rightarrow> True | Some d \<Rightarrow> d = [] \<or> is_surroundings d)"

text \<open>The fixed set of tile kinds.\<close>

definition tile_kinds :: "string list" where
  "tile_kinds = [''player'', ''empty'', ''wall'', ''monster'', ''food'', ''dose'', ''unknown'']"


section \<open>Properties\<close>

subsection \<open>Random choice\<close>

lemma random_choice_nth:
  "xs \<noteq> [] \<Longrightarrow> random_choice xs r = Inr (xs ! (r mod length xs))"
  by (simp add: random_choice_def)

lemma random_choice_mem:
  "xs \<noteq> [] \<Longrightarrow> \<exists>x. random_choice xs r = Inr x \<and> x \<in> set xs"
  by (simp add: random_choice_def)

lemma random_choice_bij:
  assumes "distinct xs"
  shows "bij_betw (random_choice xs) {..<length xs} (Inr ` set xs)"
  unfolding bij_betw_def
proof
  show "inj_on (random_choice xs) {..<length xs}"
    using assms by (auto simp: inj_on_def random_choice_def nth_eq_iff_index_eq)
  have "random_choice xs ` {..<length xs} = (\<lambda>i. Inr (xs ! i)) ` {..<length xs}"
    by (rule image_cong) (auto simp: random_choice_def)
  also have "\<dots> = Inr ` set xs"
    by (auto simp: set_conv_nth image_iff)
  finally show "random_choice xs ` {..<length xs} = Inr ` set xs" .
qed

lemma set_directions_of:
  "set (directions_of kind d) = {direction. (direction, kind) \<in> set d}"
  by (auto simp: directions_of_def image_iff)

lemma distinct_directions_of:
  "distinct (map fst d) \<Longrightarrow> distinct (directions_of kind d)"
  by (simp add: directions_of_def distinct_map_filter)

lemma next_command_food:
  assumes "p \<noteq> []" and "directions_of ''food'' d \<noteq> []"
  shows "next_command (Some p) (Some d) u r = random_choice (directions_of ''food'' d) r"
proof -
  from assms(2) have "d \<noteq> []" by (auto simp: directions_of_def)
  with assms show ?thesis by (simp add: next_command_def)
qed

subsection \<open>The Decision Policy returns directions\<close>

lemma directions_of_subset: "set (directions_of kind d) \<subseteq> set (map fst d)"
  by (auto simp: directions_of_def)

lemma dict_get_key:
  "k \<in> set (map fst d) \<Longrightarrow> \<exists>v. dict_get d k = Inr v"
  by (cases "map_of d k") (auto simp: dict_get_def map_of_eq_None_iff)

lemma preferred_directions_keys:
  "set ks \<subseteq> set (map fst d) \<Longrightarrow> \<exists>ds. preferred_directions d ks = Inr ds \<and> set ds \<subseteq> set ks"
proof (induction ks)
  case Nil
  then show ?case by simp
next
  case (Cons k ks)
  then obtain ds where ds: "preferred_directions d ks = Inr ds" "set ds \<subseteq> set ks"
    by auto
  from Cons.prems obtain v where "dict_get d k = Inr v"
    using dict_get_key[of k d] by auto
  with ds show ?case by auto
qed

lemma adjacent_directions_keys: "map fst adjacent_directions = directions"
  by (simp add: adjacent_directions_def directions_def)

lemma directions_nonempty: "directions \<noteq> []"
  by (simp add: directions_def)

lemma random_choice_directions: "\<exists>c \<in> set directions. random_choice directions r = Inr c"
  using random_choice_mem[OF directions_nonempty] by blast

lemma walkable_or_any_direction:
  assumes "set (map fst d) \<subseteq> set directions"
  shows "\<exists>c \<in> set directions. walkable_or_any d r = Inr c"
proof (cases "map fst (filter (\<lambda>(direction, tile). empty_or_monster tile) d) = []")
  case True
  then show ?thesis
    using random_choice_directions by (simp add: walkable_or_any_def)
next
  case False
  from random_choice_mem[OF False, of r] obtain c
    where "random_choice (map fst (filter (\<lambda>(direction, tile). empty_or_monster tile) d)) r = Inr c"
      and "c \<in> set (map fst (filter (\<lambda>(direction, tile). empty_or_monster tile) d))"
    by blast
  with False assms show ?thesis
    by (auto simp: walkable_or_any_def)
qed

lemma next_command_direction:
  assumes "valid_display disp"
  shows "\<exists>c \<in> set directions. next_command prev disp u r = Inr c"
proof (cases "\<exists>d p. disp = Some d \<and> prev = Some p \<and> d \<noteq> [] \<and> p \<noteq> []")
  case False
  then have "next_command prev disp u r = random_choice directions r"
    by (auto simp: next_command_def split: option.splits)
  then show ?thesis using random_choice_directions by simp
next
  case True
  then obtain d p where dp: "disp = Some d" "prev = Some p" "d \<noteq> []" "p \<noteq> []"
    by blast
  with assms have keys: "set (map fst d) = set directions"
    by (simp add: valid_display_def is_surroundings_def)
  show ?thesis
  proof (cases "directions_of ''food'' d \<noteq> []")
    case True
    from random_choice_mem[OF True, of r] directions_of_subset[of "''food''" d] keys dp True
    show ?thesis by (auto simp: next_command_def)
  next
    case nofood: False
    show ?thesis
    proof (cases "directions_of ''dose'' d \<noteq> []")
      case True
      from random_choice_mem[OF True, of r] directions_of_subset[of "''dose''" d] keys dp nofood True
      show ?thesis by (auto simp: next_command_def)
    next
      case nodose: False
      have walk: "\<exists>c \<in> set directions. walkable_or_any d r = Inr c"
        using keys by (intro walkable_or_any_direction) simp
      show ?thesis
      proof (cases "p \<in> set directions \<and> u \<le> 0.75")
        case False
        with dp nofood nodose walk show ?thesis
          by (auto simp: next_command_def)
      next
        case True
        then obtain tile where tile: "dict_get d p = Inr tile"
          using dict_get_key[of p d] keys by auto
        obtain ds where ds: "preferred_directions d (map fst adjacent_directions) = Inr ds"
            "set ds \<subseteq> set directions"
          using preferred_directions_keys[of "map fst adjacent_directions" d] keys
          by (auto simp: adjacent_directions_keys)
        have pref: "ds \<noteq> [] \<Longrightarrow> \<exists>c \<in> set directions. random_choice ds r = Inr c"
          using random_choice_mem[of ds r] ds(2) by auto
        from True dp nofood nodose tile ds walk pref show ?thesis
          by (auto simp: next_command_def)
      qed
    qed
  qed
qed

subsection \<open>The Surroundings Classifier\<close>

lemma cell_type_kind: "cell_type c \<in> set tile_kinds"
  by (simp add: cell_type_def types_def tile_kinds_def)

lemma list_get_mem: "list_get xs i = Inr c \<Longrightarrow> c \<in> set xs"
  by (auto simp: list_get_def split: if_splits)

lemma get_cell_mem: "get_cell m x y = Inr c \<Longrightarrow> c \<in> set (cells m)"
  unfolding get_cell_def by (rule list_get_mem)

lemma index_bounds:
  fixes w h x y :: int
  assumes "0 \<le> x" "x < w" "0 \<le> y" "y < h"
  shows "0 \<le> y * w + x \<and> y * w + x < w * h"
proof -
  have "0 < w" using assms by simp
  have "0 \<le> y * w" using assms \<open>0 < w\<close> by simp
  have "y + 1 \<le> h" using assms by simp
  then have "(y + 1) * w \<le> h * w"
    using \<open>0 < w\<close> by (intro mult_right_mono) simp_all
  then have "y * w + w \<le> w * h"
    by (simp add: algebra_simps)
  with assms \<open>0 \<le> y * w\<close> show ?thesis by simp
qed

lemma get_cell_in_grid:
  assumes "int (length (cells m)) = width m * height m"
    and "0 \<le> x" "x < width m" "0 \<le> y" "y < height m"
  shows "get_cell m x y = Inr (cells m ! nat (y * width m + x))"
    and "nat (y * width m + x) < length (cells m)"
  using index_bounds[OF assms(2-5)] assms(1)
  by (auto simp: get_cell_def list_get_def)

lemma index_unique:
  fixes w x y x' y' :: int
  assumes "0 \<le> x" "x < w" "0 \<le> x'" "x' < w" "y * w + x = y' * w + x'"
  shows "x = x' \<and> y = y'"
proof -
  have "(y * w + x) mod w = x mod w" "(y' * w + x') mod w = x' mod w"
    by (rule mod_mult_self3)+
  moreover have "x mod w = x" "x' mod w = x'"
    using assms by simp_all
  ultimately have "x = x'" using assms(5) by simp
  with assms have "y * w = y' * w" by simp
  moreover have "w \<noteq> 0" using assms by simp
  ultimately show ?thesis using \<open>x = x'\<close> by simp
qed

lemma scan_column_no_player:
  assumes "\<forall>c \<in> set (cells m). cell_type c \<noteq> ''player''"
  shows "scan_column m x ys p = Inr q \<Longrightarrow> q = p"
proof (induction ys arbitrary: p)
  case Nil
  then show ?case by simp
next
  case (Cons y ys)
  then show ?case
    using assms by (auto split: sum.splits dest!: get_cell_mem)
qed

lemma scan_grid_no_player:
  assumes "\<forall>c \<in> set (cells m). cell_type c \<noteq> ''player''"
  shows "scan_grid m xs ys p = Inr q \<Longrightarrow> q = p"
proof (induction xs arbitrary: p)
  case Nil
  then show ?case by simp
next
  case (Cons x xs)
  from Cons.prems obtain p' where col: "scan_column m x ys p = Inr p'"
    and rest: "scan_grid m xs ys p' = Inr q"
    by (auto split: sum.splits)
  from col have "p' = p" by (rule scan_column_no_player[OF assms])
  moreover from rest have "q = p'" by (rule Cons.IH)
  ultimately show ?case by simp
qed

lemma scan_column_unique:
  assumes len: "int (length (cells m)) = width m * height m"
    and uniq: "\<And>x y. 0 \<le> x \<Longrightarrow> x < width m \<Longrightarrow> 0 \<le> y \<Longrightarrow> y < height m \<Longrightarrow>
                 cell_type (cells m ! nat (y * width m + x)) = ''player'' \<Longrightarrow> x = px \<and> y = py"
    and player: "cell_type (cells m ! nat (py * width m + px)) = ''player''"
    and x: "0 \<le> x" "x < width m"
  shows "\<forall>y \<in> set ys. 0 \<le> y \<and> y < height m \<Longrightarrow>
         scan_column m x ys p = Inr (if x = px \<and> py \<in> set ys then Some (px, py) else p)"
proof (induction ys arbitrary: p)
  case Nil
  then show ?case by simp
next
  case (Cons y ys)
  then have y: "0 \<le> y" "y < height m" by simp_all
  have cell: "get_cell m x y = Inr (cells m ! nat (y * width m + x))"
    using len x y by (rule get_cell_in_grid)
  have IH: "\<And>p. scan_column m x ys p = Inr (if x = px \<and> py \<in> set ys then Some (px, py) else p)"
    using Cons by simp
  show ?case
  proof (cases "cell_type (cells m ! nat (y * width m + x)) = ''player''")
    case True
    with uniq x y have "x = px \<and> y = py" by blast
    with True cell IH show ?thesis by simp
  next
    case False
    with player have "\<not> (x = px \<and> y = py)" by auto
    with False cell IH show ?thesis by auto
  qed
qed

lemma scan_grid_unique:
  assumes len: "int (length (cells m)) = width m * height m"
    and uniq: "\<And>x y. 0 \<le> x \<Longrightarrow> x < width m \<Longrightarrow> 0 \<le> y \<Longrightarrow> y < height m \<Longrightarrow>
                 cell_type (cells m ! nat (y * width m + x)) = ''player'' \<Longrightarrow> x = px \<and> y = py"
    and player: "cell_type (cells m ! nat (py * width m + px)) = ''player''"
    and ys: "\<forall>y \<in> set ys. 0 \<le> y \<and> y < height m"
  shows "\<forall>x \<in> set xs. 0 \<le> x \<and> x < width m \<Longrightarrow>
         scan_grid m xs ys p = Inr (if px \<in> set xs \<and> py \<in> set ys then Some (px, py) else p)"
proof (induction xs arbitrary: p)
  case Nil
  then show ?case by simp
next
  case (Cons x xs)
  then have x: "0 \<le> x" "x < width m" by simp_all
  have col: "scan_column m x ys p = Inr (if x = px \<and> py \<in> set ys then Some (px, py) else p)"
    using len uniq player x ys by (rule scan_column_unique)
  have IH: "\<And>p. scan_grid m xs ys p = Inr (if px \<in> set xs \<and> py \<in> set ys then Some (px, py) else p)"
    using Cons by simp
  show ?case
    by (simp add: col IH)
qed

lemma py_range_mem: "x \<in> set (py_range n) \<longleftrightarrow> 0 \<le> x \<and> x < n"
proof
  assume "x \<in> set (py_range n)"
  then show "0 \<le> x \<and> x < n" by (auto simp: py_range_def)
next
  assume a: "0 \<le> x \<and> x < n"
  then have "nat x \<in> set [0..<nat n]" by simp
  then have "int (nat x) \<in> set (py_range n)" unfolding py_range_def by (simp only: set_map image_eqI)
  with a show "x \<in> set (py_range n)" by simp
qed

lemma classify_keys: "classify m x y ns = Inr d \<Longrightarrow> map fst d = map fst ns"
  by (induction m x y ns arbitrary: d rule: classify.induct) (auto split: sum.splits)

lemma classify_values: "classify m x y ns = Inr d \<Longrightarrow> \<forall>v \<in> set (map snd d). v \<in> set tile_kinds"
proof (induction ns arbitrary: d)
  case Nil
  then show ?case by simp
next
  case (Cons n ns)
  obtain k dx dy where n: "n = (k, dx, dy)" by (cases n)
  from Cons.prems n obtain c d' where "classify m x y ns = Inr d'" "d = (k, cell_type c) # d'"
    by (auto split: sum.splits)
  with Cons.IH[of d'] show ?case by (simp add: cell_type_kind)
qed

lemma classify_in_grid:
  assumes len: "int (length (cells m)) = width m * height m"
  shows "\<forall>n \<in> set ns. 0 \<le> x + fst (snd n) \<and> x + fst (snd n) < width m
             \<and> 0 \<le> y + snd (snd n) \<and> y + snd (snd n) < height m \<Longrightarrow>
         \<exists>d. classify m x y ns = Inr d"
proof (induction ns)
  case Nil
  then show ?case by simp
next
  case (Cons n ns)
  obtain k dx dy where n: "n = (k, dx, dy)" by (cases n)
  from Cons obtain d where d: "classify m x y ns = Inr d" by auto
  from Cons.prems n have "0 \<le> x + dx" "x + dx < width m" "0 \<le> y + dy" "y + dy < height m"
    by simp_all
  with len have "get_cell m (x + dx) (y + dy) = Inr (cells m ! nat ((y + dy) * width m + (x + dx)))"
    by (rule get_cell_in_grid)
  with d n show ?case by simp
qed

lemma neighbours_keys: "map fst neighbours = directions"
  by (simp add: neighbours_def directions_def)

lemma surroundings_keys:
  assumes "surroundings_from_message m = Inr d"
  shows "map fst d = directions"
proof -
  from assms obtain x y where "classify m x y neighbours = Inr d"
    by (auto simp: surroundings_from_message_def split: if_splits sum.splits option.splits)
  then show ?thesis using classify_keys neighbours_keys by metis
qed

lemma find_player:
  assumes len: "int (length (cells m)) = width m * height m"
    and inside: "0 \<le> px" "px < width m" "0 \<le> py" "py < height m"
    and player: "cell_type (cells m ! nat (py * width m + px)) = ''player''"
    and only: "\<forall>j < length (cells m). cell_type (cells m ! j) = ''player'' \<longrightarrow> j = nat (py * width m + px)"
  shows "scan_grid m (py_range (width m)) (py_range (height m)) None = Inr (Some (px, py))"
proof -
  have uniq: "x = px \<and> y = py"
    if "0 \<le> x" "x < width m" "0 \<le> y" "y < height m"
       "cell_type (cells m ! nat (y * width m + x)) = ''player''" for x y
  proof -
    have b: "nat (y * width m + x) < length (cells m)"
      using len that(1-4) by (rule get_cell_in_grid)
    with only that(5) have "nat (y * width m + x) = nat (py * width m + px)" by blast
    moreover have "0 \<le> y * width m + x" "0 \<le> py * width m + px"
      using index_bounds[OF that(1-4)] index_bounds[OF inside] by simp_all
    ultimately have "y * width m + x = py * width m + px" by simp
    with that(1,2) inside(1,2) show ?thesis by (rule index_unique)
  qed
  have "scan_grid m (py_range (width m)) (py_range (height m)) None =
      Inr (if px \<in> set (py_range (width m)) \<and> py \<in> set (py_range (height m)) then Some (px, py) else None)"
    using len uniq player
    by (rule scan_grid_unique) (simp_all add: py_range_mem)
  with inside show ?thesis by (simp add: py_range_mem)
qed

subsection \<open>Key events\<close>

lemma key_from_command_actions:
  "map key_from_command actions =
     map (\<lambda>c. Inr (key_from_code c))
       [''NumPad7'', ''Up'', ''NumPad9'', ''Left'', ''Right'', ''NumPad1'', ''Down'', ''NumPad3'', ''D1'', ''Q'']"
  by (simp add: actions_def directions_def key_from_command_def dict_get_def mapping_def)

lemma distinct_keys: "distinct (map key_from_command actions)"
  unfolding key_from_command_actions by (simp add: key_from_code_def)

subsection \<open>The Session Driver\<close>

lemma valid_display_surroundings:
  "surroundings_from_message m = Inr d \<Longrightarrow> valid_display (Some d)"
  using surroundings_keys[of m d]
  by (simp add: valid_display_def is_surroundings_def) (simp add: directions_def)

lemma quit_not_direction: "''Quit'' \<notin> set directions" "''Eat'' \<notin> set directions"
  by (simp_all add: directions_def)

lemma turn_Continue:
  assumes "turn env max_turns st = Continue st'" and "valid_display (display st)"
  shows "(\<exists>c \<in> set directions. issued st' = issued st @ [c])
      \<and> valid_display (display st') \<and> turns st' = turns st + 1 \<and> turns st' \<le> max_turns"
proof -
  let ?i = "env (turns st + 1)"
  from assms(1) have le: "\<not> turns st + 1 > max_turns"
    by (auto simp: turn_def Let_def split: if_splits sum.splits option.splits)
  obtain c where c: "c \<in> set directions"
      "next_command (previous_command st) (display st) (random_u ?i) (random_r ?i) = Inr c"
    using next_command_direction[OF assms(2)] by blast
  from assms(1) le c show ?thesis
    by (auto simp: turn_def Let_def valid_display_surroundings split: if_splits sum.splits option.splits)
qed

lemma turn_Stop:
  assumes "turn env max_turns st = Stop r st'" and "valid_display (display st)"
    and "turns st \<le> max_turns"
  shows "(issued st' = issued st \<or> (\<exists>c \<in> set directions. issued st' = issued st @ [c])
           \<or> issued st' = issued st @ [''Quit''] \<and> turns st' = max_turns + 1)"
proof (cases "turns st + 1 > max_turns")
  case True
  with assms(3) have "turns st + 1 = max_turns + 1" by simp
  with assms(1) True show ?thesis
    by (auto simp: turn_def Let_def split: if_splits sum.splits option.splits)
next
  case False
  let ?i = "env (turns st + 1)"
  obtain c where c: "c \<in> set directions"
      "next_command (previous_command st) (display st) (random_u ?i) (random_r ?i) = Inr c"
    using next_command_direction[OF assms(2)] by blast
  from assms(1) False c show ?thesis
    by (auto simp: turn_def Let_def split: if_splits sum.splits option.splits)
qed


lemma run_loop_issued:
  assumes "valid_display (display st)" and "turns st \<le> max_turns"
    and "set (issued st) \<subseteq> set directions"
  shows "\<exists>ds. set ds \<subseteq> set directions
           \<and> (issued (snd (run_loop env max_turns st)) = ds
               \<or> issued (snd (run_loop env max_turns st)) = ds @ [''Quit'']
                   \<and> turns (snd (run_loop env max_turns st)) = max_turns + 1)"
  using assms
proof (induction env max_turns st rule: run_loop.induct)
  case (1 env max_turns st)
  show ?case
  proof (cases "turn env max_turns st")
    case (Continue st')
    from turn_Continue[OF Continue "1.prems"(1)] "1.prems"(3)
    have "valid_display (display st')" "turns st' \<le> max_turns" "set (issued st') \<subseteq> set directions"
      by auto
    with "1.IH"[OF Continue] Continue show ?thesis
      by (simp add: run_loop.simps[of env max_turns st])
  next
    case (Stop r st')
    from turn_Stop[OF Stop "1.prems"(1,2)] "1.prems"(3)
    have "\<exists>ds. set ds \<subseteq> set directions
           \<and> (issued st' = ds \<or> issued st' = ds @ [''Quit''] \<and> turns st' = max_turns + 1)"
      by (metis (no_types, lifting) Un_subset_iff empty_set empty_subsetI insert_subset list.set(2) set_append)
    with Stop show ?thesis
      by (simp add: run_loop.simps[of env max_turns st])
  qed
qed


lemma run_game_issued:
  "\<exists>ds. set ds \<subseteq> set directions
     \<and> (issued (snd (run_game env)) = ds
         \<or> issued (snd (run_game env)) = ds @ [''Quit'']
             \<and> turns (snd (run_game env)) = 200 + randint 10 200 (max_turns_draw env) + 1)"
proof -
  let ?max = "200 + randint 10 200 (max_turns_draw env)"
  let ?st0 = "\<lparr>turns = 0, previous_command = None, display = None, issued = [], sent = [],
                 printed = [(''Connecting to the game...'', []), (''... connected.'', [])]\<rparr>"
  have "valid_display (display ?st0)" by (simp add: valid_display_def)
  moreover have "turns ?st0 \<le> ?max" by (simp add: randint_def)
  moreover have "set (issued ?st0) \<subseteq> set directions" by simp
  ultimately have loop: "\<exists>ds. set ds \<subseteq> set directions
           \<and> (issued (snd (run_loop (turn_inputs env) ?max ?st0)) = ds
               \<or> issued (snd (run_loop (turn_inputs env) ?max ?st0)) = ds @ [''Quit'']
                   \<and> turns (snd (run_loop (turn_inputs env) ?max ?st0)) = ?max + 1)"
    by (rule run_loop_issued)
  obtain r st where rs: "run_loop (turn_inputs env) ?max ?st0 = (r, st)"
    by (cases "run_loop (turn_inputs env) ?max ?st0")
  then have "issued (snd (run_game env)) = issued st \<and> turns (snd (run_game env)) = turns st"
    by (cases r) (simp_all add: run_game_def Let_def)
  with loop rs show ?thesis by simp
qed

subsection \<open>The Results Aggregator\<close>

lemma success_count: "success (count result res) = (if result = SUCCESS then success res + 1 else success res)"
  by (cases result) simp_all

lemma run_tests_all_success:
  "\<forall>i \<in> set is. trials i = Inr SUCCESS \<Longrightarrow>
     run_tests trials is res = (None, res\<lparr>success := success res + int (length is)\<rparr>)"
proof (induction "is" arbitrary: res)
  case Nil
  then show ?case by simp
next
  case (Cons i "is")
  then show ?case by (simp add: add.assoc add.commute)
qed

lemma run_tests_success_le:
  "success (snd (run_tests trials is res)) \<le> success res + int (length is)"
proof (induction "is" arbitrary: res)
  case Nil
  then show ?case by simp
next
  case (Cons i "is")
  show ?case
  proof (cases "trials i")
    case (Inl e)
    then show ?thesis by simp
  next
    case (Inr result)
    with Cons[of "count result res"] show ?thesis
      by (simp add: success_count split: if_splits)
  qed
qed

lemma run_tests_not_all_success:
  "\<exists>i \<in> set is. trials i \<noteq> Inr SUCCESS \<Longrightarrow>
     success (snd (run_tests trials is res)) < success res + int (length is)"
proof (induction "is" arbitrary: res)
  case Nil
  then show ?case by simp
next
  case (Cons i "is")
  show ?case
  proof (cases "trials i")
    case (Inl e)
    then show ?thesis by simp
  next
    case (Inr result)
    show ?thesis
    proof (cases "result = SUCCESS")
      case True
      with Inr Cons.prems have "\<exists>i \<in> set is. trials i \<noteq> Inr SUCCESS" by auto
      from Cons.IH[OF this, of "count result res"] Inr True show ?thesis
        by (simp add: success_count)
    next
      case False
      with Inr run_tests_success_le[of trials "is" "count result res"] show ?thesis
        by (simp add: success_count)
    qed
  qed
qed

subsection \<open>The Trial Orchestrator\<close>




lemma test_run_session:
  assumes "build_rc env = 0" and "poll_settled env = None"
    and "run_game (session env) = (Inr ended, st)"
  shows "test_run env w =
     test_run_status env
       (w\<lparr>files := (files w)(replay_file env \<mapsto> trace env),
          stdout := stdout w @ [(''Building dose-response'', []),
             (''Running the game with a replay destination: {}'', [APath (replay_file env)]),
             (''Sending commands'', [])] @ printed st\<rparr>)"
  unfolding test_run_def
  by (simp add: assms print_def named_temporary_file_def Let_def)

lemma test_run_status_replay:
  assumes "poll_after env = None \<or> poll_after env = Some 0"
  shows "\<exists>w'. test_run_status env w = test_run_replay env w'
           \<and> files w' = files w \<and> dirs w' = dirs w"
proof (cases "poll_after env")
  case None
  then have "test_run_status env w
      = test_run_replay env (print (''The game ended, getting its status'', []) w)"
    by (simp add: test_run_status_def Let_def)
  moreover have "files (print (''The game ended, getting its status'', []) w) = files w"
    "dirs (print (''The game ended, getting its status'', []) w) = dirs w"
    by (simp_all add: print_def)
  ultimately show ?thesis by (intro exI conjI)
next
  case (Some rc)
  with assms have "rc = 0" by simp
  with Some have "test_run_status env w
      = test_run_replay env
          (print (''Starting the replay'', []) (print (''The game ended, getting its status'', []) w))"
    by (simp add: test_run_status_def Let_def)
  moreover have "files (print (''Starting the replay'', [])
        (print (''The game ended, getting its status'', []) w)) = files w"
    "dirs (print (''Starting the replay'', [])
        (print (''The game ended, getting its status'', []) w)) = dirs w"
    by (simp_all add: print_def)
  ultimately show ?thesis by (intro exI conjI)
qed


lemma test_run_reaches_status:
  assumes "build_rc env = 0" and "poll_settled env = None"
    and "fst (run_game (session env)) = Inr ended"
  shows "\<exists>w'. test_run env w = test_run_status env w'
           \<and> files w' = (files w)(replay_file env \<mapsto> trace env) \<and> dirs w' = dirs w"
proof -
  obtain st where "run_game (session env) = (Inr ended, st)"
    using assms(3) by (cases "run_game (session env)") simp
  from test_run_session[OF assms(1,2) this, of w] show ?thesis
    by (intro exI conjI, assumption) simp_all
qed

lemma test_run_reaches_replay:
  assumes "build_rc env = 0" and "poll_settled env = None"
    and "fst (run_game (session env)) = Inr ended"
    and "poll_after env = None \<or> poll_after env = Some 0"
  shows "\<exists>w'. test_run env w = test_run_replay env w'
           \<and> files w' = (files w)(replay_file env \<mapsto> trace env) \<and> dirs w' = dirs w"
proof -
  from test_run_reaches_status[OF assms(1-3), of w] obtain w1
    where w1: "test_run env w = test_run_status env w1"
      "files w1 = (files w)(replay_file env \<mapsto> trace env)" "dirs w1 = dirs w"
    by blast
  from test_run_status_replay[OF assms(4), of w1] obtain w2
    where w2: "test_run_status env w1 = test_run_replay env w2" "files w2 = files w1" "dirs w2 = dirs w1"
    by blast
  have "test_run env w = test_run_replay env w2" using w1(1) w2(1) by simp
  moreover have "files w2 = (files w)(replay_file env \<mapsto> trace env)" using w1(2) w2(2) by simp
  moreover have "dirs w2 = dirs w" using w1(3) w2(3) by simp
  ultimately show ?thesis by (intro exI conjI)
qed



lemma key_from_command_direction:
  "c \<in> set directions \<Longrightarrow> \<exists>k. key_from_command c = Inr k"
  by (auto simp: directions_def key_from_command_def dict_get_def mapping_def)

lemma run_game_first_turn_times_out:
  assumes "writable (turn_inputs env 1)" and "reply (turn_inputs env 1) = None"
  shows "fst (run_game env) = Inr TimedOut"
proof -
  let ?max = "200 + randint 10 200 (max_turns_draw env)"
  let ?st0 = "\<lparr>turns = 0, previous_command = None, display = None, issued = [], sent = [],
                 printed = [(''Connecting to the game...'', []), (''... connected.'', [])]\<rparr>"
  let ?i = "turn_inputs env 1"
  have max: "\<not> 1 > ?max" by (simp add: randint_def)
  obtain c where c: "c \<in> set directions"
      "next_command None None (random_u ?i) (random_r ?i) = Inr c"
    using next_command_direction[of None None "random_u ?i" "random_r ?i"]
    by (auto simp: valid_display_def)
  obtain k where k: "key_from_command c = Inr k"
    using key_from_command_direction[OF c(1)] by blast
  have "c \<noteq> ''Quit''" using c(1) quit_not_direction by auto
  with max c k assms have "\<exists>st. turn (turn_inputs env) ?max ?st0 = Stop (Inr TimedOut) st"
    by (simp add: turn_def Let_def)
  then obtain st where "turn (turn_inputs env) ?max ?st0 = Stop (Inr TimedOut) st" ..
  then have "run_loop (turn_inputs env) ?max ?st0 = (Inr TimedOut, st)"
    by (simp add: run_loop.simps[of _ _ ?st0])
  then show ?thesis by (simp add: run_game_def Let_def)
qed


subsection \<open>Sessions in which every command is answered\<close>

lemma key_from_command_Quit: "\<exists>k. key_from_command ''Quit'' = Inr k"
  by (simp add: key_from_command_def dict_get_def mapping_def)

lemma turn_answered_Quit:
  assumes "writable (env (turns st + 1))" and "turns st + 1 > max_turns"
  shows "\<exists>st'. turn env max_turns st = Stop (Inr QuitSent) st' \<and> turns st' = turns st + 1"
proof -
  obtain k where "key_from_command ''Quit'' = Inr k"
    using key_from_command_Quit by blast
  with assms show ?thesis by (simp add: turn_def Let_def)
qed

lemma turn_answered_Continue:
  assumes "writable (env (turns st + 1))"
    and "reply (env (turns st + 1)) = Some m" and "surroundings_from_message m = Inr d"
    and "\<not> turns st + 1 > max_turns" and "valid_display (display st)"
  shows "\<exists>st'. turn env max_turns st = Continue st'"
proof -
  let ?i = "env (turns st + 1)"
  obtain c where c: "c \<in> set directions"
      "next_command (previous_command st) (display st) (random_u ?i) (random_r ?i) = Inr c"
    using next_command_direction[OF assms(5)] by blast
  obtain k where k: "key_from_command c = Inr k"
    using key_from_command_direction[OF c(1)] by blast
  have "c \<noteq> ''Quit''" using c(1) quit_not_direction by auto
  with assms c k show ?thesis by (simp add: turn_def Let_def)
qed

lemma run_loop_answered:
  assumes "\<forall>t. writable (env t) \<and> (\<exists>m d. reply (env t) = Some m \<and> surroundings_from_message m = Inr d)"
    and "valid_display (display st)" and "turns st \<le> max_turns"
  shows "fst (run_loop env max_turns st) = Inr QuitSent
       \<and> turns (snd (run_loop env max_turns st)) = max_turns + 1"
  using assms
proof (induction env max_turns st rule: run_loop.induct)
  case (1 env max_turns st)
  from "1.prems"(1) have w: "writable (env (turns st + 1))" by blast
  show ?case
  proof (cases "turns st + 1 > max_turns")
    case True
    from turn_answered_Quit[of env st max_turns, OF w True] obtain st'
      where "turn env max_turns st = Stop (Inr QuitSent) st'" "turns st' = turns st + 1"
      by blast
    with True "1.prems"(3) show ?thesis
      by (simp add: run_loop.simps[of env max_turns st])
  next
    case False
    from "1.prems"(1) obtain m d where "reply (env (turns st + 1)) = Some m"
        "surroundings_from_message m = Inr d"
      by blast
    from turn_answered_Continue[of env st _ _ max_turns, OF w this False "1.prems"(2)] obtain st'
      where c: "turn env max_turns st = Continue st'"
      by blast
    from turn_Continue[OF c "1.prems"(2)]
    have "valid_display (display st')" "turns st' \<le> max_turns" by simp_all
    from "1.IH"[OF c "1.prems"(1) this] c show ?thesis
      by (simp add: run_loop.simps[of env max_turns st])
  qed
qed

lemma run_game_answered:
  assumes "\<forall>t. writable (turn_inputs env t)
             \<and> (\<exists>m d. reply (turn_inputs env t) = Some m \<and> surroundings_from_message m = Inr d)"
  shows "fst (run_game env) = Inr QuitSent
       \<and> turns (snd (run_game env)) = 200 + randint 10 200 (max_turns_draw env) + 1"
proof -
  let ?max = "200 + randint 10 200 (max_turns_draw env)"
  let ?st0 = "\<lparr>turns = 0, previous_command = None, display = None, issued = [], sent = [],
                 printed = [(''Connecting to the game...'', []), (''... connected.'', [])]\<rparr>"
  have "valid_display (display ?st0)" by (simp add: valid_display_def)
  moreover have "turns ?st0 \<le> ?max" by (simp add: randint_def)
  ultimately have loop: "fst (run_loop (turn_inputs env) ?max ?st0) = Inr QuitSent
       \<and> turns (snd (run_loop (turn_inputs env) ?max ?st0)) = ?max + 1"
    using assms by (intro run_loop_answered)
  obtain r st where rs: "run_loop (turn_inputs env) ?max ?st0 = (r, st)"
    by (cases "run_loop (turn_inputs env) ?max ?st0")
  with loop have "r = Inr QuitSent" "turns st = ?max + 1" by simp_all
  with rs show ?thesis by (simp add: run_game_def Let_def)
qed

subsection \<open>A trace that cannot be archived\<close>



lemma test_run_replay_missing_parent:
  assumes "replay_rc env \<noteq> 0" and "target_dir \<notin> dirs w"
    and "butlast target_dir \<notin> dirs w" and "files w (butlast target_dir) = None"
  shows "\<exists>w'. test_run_replay env w = (Inl FileNotFoundError, w')
           \<and> files w' = files w \<and> dirs w' = dirs w
           \<and> (''Recording crash to: {}'', [APath (bug_path env)]) \<in> set (stdout w')"
  using assms
  by (simp add: test_run_replay_def print_def os_path_isdir_def os_mkdir_def Let_def)



subsection \<open>The scan keeps the agent cell it sees last\<close>

lemma scan_column_append:
  "scan_column m x (ys1 @ ys2) p =
     (case scan_column m x ys1 p of Inl e \<Rightarrow> Inl e | Inr q \<Rightarrow> scan_column m x ys2 q)"
  by (induction ys1 arbitrary: p) (auto split: sum.splits)

lemma scan_grid_append:
  "scan_grid m (xs1 @ xs2) ys p =
     (case scan_grid m xs1 ys p of Inl e \<Rightarrow> Inl e | Inr q \<Rightarrow> scan_grid m xs2 ys q)"
  by (induction xs1 arbitrary: p) (auto split: sum.splits)

lemma scan_column_in_grid:
  assumes "int (length (cells m)) = width m * height m" and "0 \<le> x" "x < width m"
  shows "\<forall>y \<in> set ys. 0 \<le> y \<and> y < height m \<Longrightarrow> \<exists>q. scan_column m x ys p = Inr q"
proof (induction ys arbitrary: p)
  case Nil
  then show ?case by simp
next
  case (Cons y ys)
  then have y: "0 \<le> y" "y < height m" by simp_all
  have "get_cell m x y = Inr (cells m ! nat (y * width m + x))"
    using assms y by (rule get_cell_in_grid)
  with Cons show ?case by simp
qed

lemma scan_column_no_agent:
  assumes "int (length (cells m)) = width m * height m" and "0 \<le> x" "x < width m"
  shows "\<forall>y \<in> set ys. 0 \<le> y \<and> y < height m
           \<and> cell_type (cells m ! nat (y * width m + x)) \<noteq> ''player'' \<Longrightarrow>
         scan_column m x ys p = Inr p"
proof (induction ys)
  case Nil
  then show ?case by simp
next
  case (Cons y ys)
  then have y: "0 \<le> y" "y < height m" by simp_all
  have "get_cell m x y = Inr (cells m ! nat (y * width m + x))"
    using assms y by (rule get_cell_in_grid)
  with Cons show ?case by simp
qed

lemma scan_column_last:
  assumes len: "int (length (cells m)) = width m * height m" and x: "0 \<le> x" "x < width m"
    and before: "\<forall>y' \<in> set ys1. 0 \<le> y' \<and> y' < height m"
    and y: "0 \<le> y" "y < height m"
    and agent: "cell_type (cells m ! nat (y * width m + x)) = ''player''"
    and after: "\<forall>y' \<in> set ys2. 0 \<le> y' \<and> y' < height m
           \<and> cell_type (cells m ! nat (y' * width m + x)) \<noteq> ''player''"
  shows "scan_column m x (ys1 @ y # ys2) p = Inr (Some (x, y))"
proof -
  obtain q where q: "scan_column m x ys1 p = Inr q"
    using scan_column_in_grid[OF len x before] by blast
  have cell: "get_cell m x y = Inr (cells m ! nat (y * width m + x))"
    using len x y by (rule get_cell_in_grid)
  have "scan_column m x ys2 (Some (x, y)) = Inr (Some (x, y))"
    using len x after by (rule scan_column_no_agent)
  with q cell agent show ?thesis by (simp add: scan_column_append)
qed

lemma scan_grid_in_grid:
  assumes "int (length (cells m)) = width m * height m"
    and "\<forall>y \<in> set ys. 0 \<le> y \<and> y < height m"
  shows "\<forall>x \<in> set xs. 0 \<le> x \<and> x < width m \<Longrightarrow> \<exists>q. scan_grid m xs ys p = Inr q"
proof (induction xs arbitrary: p)
  case Nil
  then show ?case by simp
next
  case (Cons x xs)
  then have x: "0 \<le> x" "x < width m" by simp_all
  obtain q where "scan_column m x ys p = Inr q"
    using scan_column_in_grid[OF assms(1) x assms(2)] by blast
  with Cons show ?case by simp
qed

lemma scan_grid_no_agent:
  assumes "int (length (cells m)) = width m * height m"
  shows "\<forall>x \<in> set xs. 0 \<le> x \<and> x < width m
           \<and> (\<forall>y \<in> set ys. 0 \<le> y \<and> y < height m
                  \<and> cell_type (cells m ! nat (y * width m + x)) \<noteq> ''player'') \<Longrightarrow>
         scan_grid m xs ys p = Inr p"
proof (induction xs)
  case Nil
  then show ?case by simp
next
  case (Cons x xs)
  then have x: "0 \<le> x" "x < width m"
    and col: "\<forall>y \<in> set ys. 0 \<le> y \<and> y < height m
                  \<and> cell_type (cells m ! nat (y * width m + x)) \<noteq> ''player''"
    by simp_all
  have "scan_column m x ys p = Inr p"
    using assms x col by (rule scan_column_no_agent)
  with Cons show ?case by simp
qed

lemma upt_split_at:
  assumes "i < (n::nat)"
  shows "[0..<n] = [0..<i] @ i # [Suc i..<n]"
proof -
  have "[0..<i + (n - i)] = [0..<i] @ [i..<i + (n - i)]"
    by (rule upt_add_eq_append) simp
  moreover have "i + (n - i) = n" using assms by simp
  ultimately have "[0..<n] = [0..<i] @ [i..<n]" by simp
  moreover have "[i..<n] = i # [Suc i..<n]"
    using assms by (rule upt_conv_Cons)
  ultimately show ?thesis by simp
qed

lemma py_range_split:
  assumes "0 \<le> x" and "x < n"
  shows "py_range n = py_range x @ x # map int [Suc (nat x)..<nat n]"
proof -
  have "nat x < nat n" using assms by simp
  then have "[0..<nat n] = [0..<nat x] @ nat x # [Suc (nat x)..<nat n]"
    by (rule upt_split_at)
  then have "py_range n = map int ([0..<nat x] @ nat x # [Suc (nat x)..<nat n])"
    unfolding py_range_def by (rule arg_cong)
  also have "\<dots> = py_range x @ int (nat x) # map int [Suc (nat x)..<nat n]"
    unfolding py_range_def by (simp only: map_append list.map)
  also have "int (nat x) = x" using assms(1) by simp
  finally show ?thesis .
qed

lemma py_range_tail_mem:
  assumes "x' \<in> set (map int [Suc (nat x)..<nat n])" and "0 \<le> x"
  shows "x < x' \<and> x' < n \<and> 0 \<le> x'"
proof -
  from assms(1) obtain k where k: "x' = int k" "Suc (nat x) \<le> k" "k < nat n"
    by auto
  from k(2) assms(2) have "x < int k" by simp
  moreover from k(3) have "int k < n" by simp
  ultimately show ?thesis using k(1) assms(2) by simp
qed

lemma find_last_player:
  assumes len: "int (length (cells m)) = width m * height m"
    and x: "0 \<le> x" "x < width m" and y: "0 \<le> y" "y < height m"
    and agent: "cell_type (cells m ! nat (y * width m + x)) = ''player''"
    and last: "\<forall>x' y'. 0 \<le> x' \<and> x' < width m \<and> 0 \<le> y' \<and> y' < height m
                 \<and> cell_type (cells m ! nat (y' * width m + x')) = ''player''
               \<longrightarrow> x' < x \<or> (x' = x \<and> y' \<le> y)"
  shows "scan_grid m (py_range (width m)) (py_range (height m)) None = Inr (Some (x, y))"
proof -
  let ?xs2 = "map int [Suc (nat x)..<nat (width m)]"
  let ?ys2 = "map int [Suc (nat y)..<nat (height m)]"
  have xs: "py_range (width m) = py_range x @ x # ?xs2"
    using x by (rule py_range_split)
  have ys: "py_range (height m) = py_range y @ y # ?ys2"
    using y by (rule py_range_split)
  have rows: "\<forall>y' \<in> set (py_range (height m)). 0 \<le> y' \<and> y' < height m"
    by (simp add: py_range_mem)
  have "\<forall>x' \<in> set (py_range x). 0 \<le> x' \<and> x' < width m"
    using x by (simp add: py_range_mem)
  then obtain q where q: "scan_grid m (py_range x) (py_range (height m)) None = Inr q"
    using scan_grid_in_grid[OF len rows] by blast
  have before: "\<forall>y' \<in> set (py_range y). 0 \<le> y' \<and> y' < height m"
    using y by (simp add: py_range_mem)
  have after: "\<forall>y' \<in> set ?ys2. 0 \<le> y' \<and> y' < height m
           \<and> cell_type (cells m ! nat (y' * width m + x)) \<noteq> ''player''"
  proof
    fix y' assume "y' \<in> set ?ys2"
    then have b: "y < y' \<and> y' < height m \<and> 0 \<le> y'"
      using y(1) by (rule py_range_tail_mem)
    have "cell_type (cells m ! nat (y' * width m + x)) \<noteq> ''player''"
    proof
      assume "cell_type (cells m ! nat (y' * width m + x)) = ''player''"
      with last x b have "x < x \<or> (x = x \<and> y' \<le> y)" by blast
      with b show False by simp
    qed
    with b show "0 \<le> y' \<and> y' < height m
           \<and> cell_type (cells m ! nat (y' * width m + x)) \<noteq> ''player''" by simp
  qed
  have col: "scan_column m x (py_range (height m)) q = Inr (Some (x, y))"
    unfolding ys using len x before y agent after by (rule scan_column_last)
  have "\<forall>x' \<in> set ?xs2. 0 \<le> x' \<and> x' < width m
           \<and> (\<forall>y' \<in> set (py_range (height m)). 0 \<le> y' \<and> y' < height m
                  \<and> cell_type (cells m ! nat (y' * width m + x')) \<noteq> ''player'')"
  proof
    fix x' assume "x' \<in> set ?xs2"
    then have b: "x < x' \<and> x' < width m \<and> 0 \<le> x'"
      using x(1) by (rule py_range_tail_mem)
    have "\<forall>y' \<in> set (py_range (height m)). 0 \<le> y' \<and> y' < height m
                  \<and> cell_type (cells m ! nat (y' * width m + x')) \<noteq> ''player''"
    proof
      fix y' assume "y' \<in> set (py_range (height m))"
      then have c: "0 \<le> y' \<and> y' < height m" by (simp add: py_range_mem)
      have "cell_type (cells m ! nat (y' * width m + x')) \<noteq> ''player''"
      proof
        assume "cell_type (cells m ! nat (y' * width m + x')) = ''player''"
        with last b c have "x' < x \<or> (x' = x \<and> y' \<le> y)" by blast
        with b show False by simp
      qed
      with c show "0 \<le> y' \<and> y' < height m
                  \<and> cell_type (cells m ! nat (y' * width m + x')) \<noteq> ''player''" by simp
    qed
    with b show "0 \<le> x' \<and> x' < width m
           \<and> (\<forall>y' \<in> set (py_range (height m)). 0 \<le> y' \<and> y' < height m
                  \<and> cell_type (cells m ! nat (y' * width m + x')) \<noteq> ''player'')" by simp
  qed
  with len have rest: "scan_grid m ?xs2 (py_range (height m)) (Some (x, y)) = Inr (Some (x, y))"
    by (rule scan_grid_no_agent)
  show ?thesis
    unfolding xs by (simp add: scan_grid_append q col rest)
qed

lemma no_agent_fails:
  assumes "\<forall>c \<in> set (cells m). cell_type c \<noteq> ''player''"
  shows "\<exists>e. surroundings_from_message m = Inl e"
proof (cases "scan_grid m (py_range (width m)) (py_range (height m)) None")
  case (Inl e)
  then show ?thesis by (simp add: surroundings_from_message_def)
next
  case (Inr q)
  with scan_grid_no_player[OF assms Inr] show ?thesis
    by (simp add: surroundings_from_message_def)
qed

section \<open>The claims\<close>

text \<open>
  C2, amended. A snapshot none of whose cells classifies as the agent makes
  \<open>surroundings_from_message\<close> raise (the assertion on the grid size, an index error, or
  the unbound \<open>player_x\<close>) whatever its width and height; it never returns a mapping. A
  snapshot of the right size with one or more agent cells does not fail on account of
  their number: the scan runs over the columns in the outer loop and the rows in the inner
  one, so the agent cell \<open>(x, y)\<close> that every other agent cell precedes in that order
  (a smaller column, or the same column and a smaller row) is the one whose neighbours are
  classified, and a mapping with the eight direction keys is returned when that cell is
  off the edge of the grid.
\<close>

theorem surroundings_by_agent_count:
  "((\<forall>c \<in> set (cells m). cell_type c \<noteq> ''player'') \<longrightarrow>
      (\<exists>e. surroundings_from_message m = Inl e))
   \<and> (int (length (cells m)) = width m * height m
        \<and> 0 \<le> x \<and> x < width m \<and> 0 \<le> y \<and> y < height m
        \<and> cell_type (cells m ! nat (y * width m + x)) = ''player''
        \<and> (\<forall>x' y'. 0 \<le> x' \<and> x' < width m \<and> 0 \<le> y' \<and> y' < height m
                \<and> cell_type (cells m ! nat (y' * width m + x')) = ''player''
              \<longrightarrow> x' < x \<or> (x' = x \<and> y' \<le> y))
      \<longrightarrow> surroundings_from_message m = classify m x y neighbours
          \<and> (0 < x \<and> x < width m - 1 \<and> 0 < y \<and> y < height m - 1 \<longrightarrow>
               (\<exists>d. surroundings_from_message m = Inr d \<and> map fst d = directions)))"
proof (intro conjI impI)
  assume "\<forall>c \<in> set (cells m). cell_type c \<noteq> ''player''"
  then show "\<exists>e. surroundings_from_message m = Inl e" by (rule no_agent_fails)
next
  assume a: "int (length (cells m)) = width m * height m
        \<and> 0 \<le> x \<and> x < width m \<and> 0 \<le> y \<and> y < height m
        \<and> cell_type (cells m ! nat (y * width m + x)) = ''player''
        \<and> (\<forall>x' y'. 0 \<le> x' \<and> x' < width m \<and> 0 \<le> y' \<and> y' < height m
                \<and> cell_type (cells m ! nat (y' * width m + x')) = ''player''
              \<longrightarrow> x' < x \<or> (x' = x \<and> y' \<le> y))"
  then have len: "int (length (cells m)) = width m * height m" by blast
  have "scan_grid m (py_range (width m)) (py_range (height m)) None = Inr (Some (x, y))"
    using a by (intro find_last_player) blast+
  with len show eq: "surroundings_from_message m = classify m x y neighbours"
    by (simp add: surroundings_from_message_def)
  assume inner: "0 < x \<and> x < width m - 1 \<and> 0 < y \<and> y < height m - 1"
  have "\<exists>d. classify m x y neighbours = Inr d"
    using len by (rule classify_in_grid) (use inner in \<open>simp add: neighbours_def\<close>)
  then obtain d where d: "classify m x y neighbours = Inr d" ..
  then have "map fst d = directions" using classify_keys neighbours_keys by metis
  with d eq show "\<exists>d. surroundings_from_message m = Inr d \<and> map fst d = directions"
    by simp
qed

theorem surroundings_by_agent_count_witness:
  "(\<exists>e. surroundings_from_message \<lparr>width = 2, height = 2, cells = [''.'', ''#'', ''%'', ''a'']\<rparr> = Inl e)
   \<and> surroundings_from_message
       \<lparr>width = 4, height = 4,
        cells = [''#'', ''.'', ''%'', ''a'',
                 ''i'', ''x'', ''@'', ''h'',
                 ''.'', ''@'', ''D'', ''+'',
                 ''S'', ''v'', ''I'', ''#'']\<rparr>
     = classify
       \<lparr>width = 4, height = 4,
        cells = [''#'', ''.'', ''%'', ''a'',
                 ''i'', ''x'', ''@'', ''h'',
                 ''.'', ''@'', ''D'', ''+'',
                 ''S'', ''v'', ''I'', ''#'']\<rparr> 2 1 neighbours
   \<and> (\<exists>d. surroundings_from_message
       \<lparr>width = 4, height = 4,
        cells = [''#'', ''.'', ''%'', ''a'',
                 ''i'', ''x'', ''@'', ''h'',
                 ''.'', ''@'', ''D'', ''+'',
                 ''S'', ''v'', ''I'', ''#'']\<rparr> = Inr d \<and> map fst d = directions)"
proof -
  let ?m = "\<lparr>width = 4, height = 4,
        cells = [''#'', ''.'', ''%'', ''a'',
                 ''i'', ''x'', ''@'', ''h'',
                 ''.'', ''@'', ''D'', ''+'',
                 ''S'', ''v'', ''I'', ''#'']\<rparr>"
  have none: "\<forall>c \<in> set (cells \<lparr>width = 2, height = 2, cells = [''.'', ''#'', ''%'', ''a'']\<rparr>). cell_type c \<noteq> ''player''"
    by (simp add: cell_type_def types_def)
  have agents: "\<forall>j < 16. cell_type (cells ?m ! j) = ''player'' \<longrightarrow> j = 6 \<or> j = 9"
    by (simp add: cell_type_def types_def nth_Cons' All_less_Suc numeral_eq_Suc)
  have last: "\<forall>x' y'. 0 \<le> x' \<and> x' < width ?m \<and> 0 \<le> y' \<and> y' < height ?m
                \<and> cell_type (cells ?m ! nat (y' * width ?m + x')) = ''player''
              \<longrightarrow> x' < 2 \<or> (x' = 2 \<and> y' \<le> 1)"
  proof (intro allI impI)
    fix x' y' :: int
    assume a: "0 \<le> x' \<and> x' < width ?m \<and> 0 \<le> y' \<and> y' < height ?m
                \<and> cell_type (cells ?m ! nat (y' * width ?m + x')) = ''player''"
    then have b: "0 \<le> x'" "x' < 4" "0 \<le> y'" "y' < 4" by simp_all
    then have "nat (y' * 4 + x') < 16" by linarith
    moreover from a have "cell_type (cells ?m ! nat (y' * 4 + x')) = ''player''" by simp
    ultimately have "nat (y' * 4 + x') = 6 \<or> nat (y' * 4 + x') = 9"
      using agents by blast
    with b have "y' * 4 + x' = 6 \<or> y' * 4 + x' = 9" by linarith
    with b show "x' < 2 \<or> (x' = 2 \<and> y' \<le> 1)" by presburger
  qed
  have hyp: "int (length (cells ?m)) = width ?m * height ?m
        \<and> 0 \<le> (2::int) \<and> 2 < width ?m \<and> 0 \<le> (1::int) \<and> 1 < height ?m
        \<and> cell_type (cells ?m ! nat (1 * width ?m + 2)) = ''player''
        \<and> (\<forall>x' y'. 0 \<le> x' \<and> x' < width ?m \<and> 0 \<le> y' \<and> y' < height ?m
                \<and> cell_type (cells ?m ! nat (y' * width ?m + x')) = ''player''
              \<longrightarrow> x' < 2 \<or> (x' = 2 \<and> y' \<le> 1))"
    using last by (simp add: cell_type_def types_def)
  have inner: "0 < (2::int) \<and> 2 < width ?m - 1 \<and> 0 < (1::int) \<and> 1 < height ?m - 1" by simp
  note at4 = surroundings_by_agent_count[of ?m 2 1]
  note zero = surroundings_by_agent_count[of "\<lparr>width = 2, height = 2, cells = [''.'', ''#'', ''%'', ''a'']\<rparr>" 0 0]
  from zero none have z: "\<exists>e. surroundings_from_message \<lparr>width = 2, height = 2, cells = [''.'', ''#'', ''%'', ''a'']\<rparr> = Inl e" by blast
  from at4 hyp have e: "surroundings_from_message ?m = classify ?m 2 1 neighbours" by blast
  from at4 hyp inner have d: "\<exists>d. surroundings_from_message ?m = Inr d \<and> map fst d = directions"
    by blast
  from z e d show ?thesis by (intro conjI)
qed

text \<open>
  C2 as stated fails for more than one agent cell. In a 4 by 4 grid with agent cells at
  column 1, row 2 and at column 2, row 1 the classifier returns the Surroundings of the
  agent at column 2, row 1, the last one in column order (a scan by rows would end at the
  other one), with the other agent as its south-west neighbour.
\<close>

theorem surroundings_two_agents_returns:
  "surroundings_from_message
     \<lparr>width = 4, height = 4,
        cells = [''#'', ''.'', ''%'', ''a'',
                 ''i'', ''x'', ''@'', ''h'',
                 ''.'', ''@'', ''D'', ''+'',
                 ''S'', ''v'', ''I'', ''#'']\<rparr>
   = Inr [(''NW'', ''empty''), (''N'', ''food''), (''NE'', ''monster''), (''W'', ''dose''),
          (''E'', ''monster''), (''SW'', ''player''), (''S'', ''monster''), (''SE'', ''dose'')]"
  by (simp add: surroundings_from_message_def py_range_def upt_rec[of _ "numeral _"] get_cell_def
      list_get_def cell_type_def types_def neighbours_def)

text \<open>
  C3 fails on the code: line 113 iterates over the dict \<open>adjacent_directions\<close>, that is
  over all its eight keys, and not over \<open>adjacent_directions[previous_command]\<close>. With
  previous action N, a wall to the north, and NE and S the only empty tiles, the list
  chosen from in the momentum branch (draw 1/2) is \<open>[NE, S]\<close>: the choice with draw 1
  returns S, which is not one of the two directions adjacent to N, although the adjacent
  direction NE is empty and is the only direction the claimed step may return.
\<close>

theorem next_command_momentum_not_adjacent:
  "next_command (Some ''N'')
     (Some [(''NW'', ''wall''), (''N'', ''wall''), (''NE'', ''empty''), (''W'', ''wall''),
            (''E'', ''wall''), (''SW'', ''wall''), (''S'', ''empty''), (''SE'', ''wall'')]) (1/2) 1
     = Inr ''S''
   \<and> dict_get adjacent_directions ''N'' = Inr [''NE'', ''NW'']
   \<and> ''S'' \<notin> set [''NE'', ''NW'']
   \<and> filter (\<lambda>direction. dict_get
          [(''NW'', ''wall''), (''N'', ''wall''), (''NE'', ''empty''), (''W'', ''wall''),
           (''E'', ''wall''), (''SW'', ''wall''), (''S'', ''empty''), (''SE'', ''wall'')] direction
          \<in> Inr ` {''empty'', ''monster''}) [''NE'', ''NW''] = [''NE'']"
  by (simp add: next_command_def directions_of_def directions_def dict_get_def
      empty_or_monster_def adjacent_directions_def random_choice_def)

text \<open>
  C4, amended: \<open>run_game\<close> draws \<open>max_turns = 200 + random.randint(10, 200)\<close> once, before
  the loop, and \<open>randint\<close> includes both ends. In a session in which every command is
  sent and answered with a snapshot the classifier accepts, Quit is sent in the turn after
  \<open>max_turns\<close>, so the number of turns before it is \<open>max_turns\<close>; as a function of the one
  draw of the session it maps the 191 equally likely draws one-to-one onto the integers
  from 210 to 400, both included.
\<close>

theorem max_turns_range:
  assumes "\<forall>t. writable (turn_inputs env t)
             \<and> (\<exists>m d. reply (turn_inputs env t) = Some m \<and> surroundings_from_message m = Inr d)"
  shows "(\<forall>r. fst (run_game (env\<lparr>max_turns_draw := r\<rparr>)) = Inr QuitSent)
       \<and> bij_betw (\<lambda>r. turns (snd (run_game (env\<lparr>max_turns_draw := r\<rparr>))) - 1) {..<191} {210..400}"
proof -
  have answered: "\<forall>t. writable (turn_inputs (env\<lparr>max_turns_draw := r\<rparr>) t)
             \<and> (\<exists>m d. reply (turn_inputs (env\<lparr>max_turns_draw := r\<rparr>) t) = Some m
                    \<and> surroundings_from_message m = Inr d)" for r
    using assms by simp
  note session = run_game_answered[OF answered]
  have played: "turns (snd (run_game (env\<lparr>max_turns_draw := r\<rparr>))) - 1 = 200 + randint 10 200 r" for r
    using session[of r] by simp
  have "bij_betw (\<lambda>r. 200 + randint 10 200 r) {..<191} {210..400}"
    by (rule bij_betw_byWitness[where f'="\<lambda>m. nat (m - 210)"]) (auto simp: randint_def)
  then have "bij_betw (\<lambda>r. turns (snd (run_game (env\<lparr>max_turns_draw := r\<rparr>))) - 1) {..<191} {210..400}"
    by (simp add: played)
  with session show ?thesis by blast
qed

theorem max_turns_range_witness:
  "bij_betw
     (\<lambda>r. turns (snd (run_game
        (\<lparr>max_turns_draw = 0,
          turn_inputs = (\<lambda>t. \<lparr>random_u = 0, random_r = 0, writable = True,
            reply = Some \<lparr>width = 3, height = 3,
              cells = [''#'', ''.'', ''%'', ''a'', ''@'', ''i'', ''x'', ''?'', ''h'']\<rparr>\<rparr>)\<rparr>
         \<lparr>max_turns_draw := r\<rparr>))) - 1)
     {..<191} {210..400}"
proof -
  let ?m = "\<lparr>width = 3, height = 3, cells = [''#'', ''.'', ''%'', ''a'', ''@'', ''i'', ''x'', ''?'', ''h'']\<rparr>"
  let ?env = "\<lparr>max_turns_draw = 0,
          turn_inputs = (\<lambda>t. \<lparr>random_u = 0, random_r = 0, writable = True, reply = Some ?m\<rparr>)\<rparr>"
  have "\<exists>d. surroundings_from_message ?m = Inr d"
    by (simp add: surroundings_from_message_def py_range_def upt_rec[of _ "numeral _"] get_cell_def
        list_get_def cell_type_def types_def neighbours_def)
  then have "\<forall>t. writable (turn_inputs ?env t)
             \<and> (\<exists>m d. reply (turn_inputs ?env t) = Some m \<and> surroundings_from_message m = Inr d)"
    by simp
  from max_turns_range[OF this] show ?thesis by (rule conjunct2)
qed

text \<open>C4 as stated fails: with the draw 190 the session plays 400 turns and sends Quit in
  turn 401, so \<open>max_turns = 400\<close>.\<close>

theorem max_turns_400:
  "fst (run_game
      \<lparr>max_turns_draw = 190,
        turn_inputs = (\<lambda>t. \<lparr>random_u = 0, random_r = 0, writable = True,
          reply = Some \<lparr>width = 3, height = 3,
            cells = [''#'', ''.'', ''%'', ''a'', ''@'', ''i'', ''x'', ''?'', ''h'']\<rparr>\<rparr>)\<rparr>) = Inr QuitSent
   \<and> turns (snd (run_game
      \<lparr>max_turns_draw = 190,
        turn_inputs = (\<lambda>t. \<lparr>random_u = 0, random_r = 0, writable = True,
          reply = Some \<lparr>width = 3, height = 3,
            cells = [''#'', ''.'', ''%'', ''a'', ''@'', ''i'', ''x'', ''?'', ''h'']\<rparr>\<rparr>)\<rparr>)) = 401"
proof -
  let ?m = "\<lparr>width = 3, height = 3, cells = [''#'', ''.'', ''%'', ''a'', ''@'', ''i'', ''x'', ''?'', ''h'']\<rparr>"
  let ?env = "\<lparr>max_turns_draw = 190,
          turn_inputs = (\<lambda>t. \<lparr>random_u = 0, random_r = 0, writable = True, reply = Some ?m\<rparr>)\<rparr>"
  have "\<exists>d. surroundings_from_message ?m = Inr d"
    by (simp add: surroundings_from_message_def py_range_def upt_rec[of _ "numeral _"] get_cell_def
        list_get_def cell_type_def types_def neighbours_def)
  then have "\<forall>t. writable (turn_inputs ?env t)
             \<and> (\<exists>m d. reply (turn_inputs ?env t) = Some m \<and> surroundings_from_message m = Inr d)"
    by simp
  from run_game_answered[OF this] show ?thesis by (simp add: randint_def)
qed

text \<open>
  C5: with a non-empty previous action and a dict in which some direction classifies as
  food, \<open>next_command\<close> returns a food direction for every draw, and the equally likely
  draws below the number of food directions map one-to-one onto the set of food
  directions: the choice is uniform on exactly that set.
\<close>

theorem next_command_food_uniform:
  assumes "prev \<noteq> []"
    and "distinct (map fst disp)"
    and "\<exists>direction. (direction, ''food'') \<in> set disp"
  shows "(\<forall>r. \<exists>direction. next_command (Some prev) (Some disp) u r = Inr direction
            \<and> (direction, ''food'') \<in> set disp)
       \<and> bij_betw (\<lambda>r. next_command (Some prev) (Some disp) u r)
           {..<card {direction. (direction, ''food'') \<in> set disp}}
           (Inr ` {direction. (direction, ''food'') \<in> set disp})"
proof -
  let ?fd = "directions_of ''food'' disp"
  from assms(3) have ne: "?fd \<noteq> []"
    using set_directions_of[of "''food''" disp] by (metis empty_iff empty_set mem_Collect_eq)
  have eq: "\<And>r. next_command (Some prev) (Some disp) u r = random_choice ?fd r"
    using assms(1) ne by (rule next_command_food)
  have dist: "distinct ?fd" using assms(2) by (rule distinct_directions_of)
  have card: "card {direction. (direction, ''food'') \<in> set disp} = length ?fd"
    using dist by (simp add: set_directions_of[symmetric] distinct_card)
  have a: "\<forall>r. \<exists>direction. next_command (Some prev) (Some disp) u r = Inr direction
            \<and> (direction, ''food'') \<in> set disp"
    using random_choice_mem[OF ne] by (simp add: eq set_directions_of)
  have b: "bij_betw (random_choice ?fd) {..<length ?fd} (Inr ` set ?fd)"
    using dist by (rule random_choice_bij)
  show ?thesis
    using a b by (simp add: eq card set_directions_of)
qed

theorem next_command_food_uniform_witness:
  "bij_betw
     (\<lambda>r. next_command (Some ''N'')
        (Some [(''NW'', ''wall''), (''N'', ''food''), (''NE'', ''food''), (''W'', ''empty''),
               (''E'', ''dose''), (''SW'', ''wall''), (''S'', ''monster''), (''SE'', ''wall'')]) 0 r)
     {..<card {direction. (direction, ''food'') \<in>
        set [(''NW'', ''wall''), (''N'', ''food''), (''NE'', ''food''), (''W'', ''empty''),
             (''E'', ''dose''), (''SW'', ''wall''), (''S'', ''monster''), (''SE'', ''wall'')]}}
     (Inr ` {direction. (direction, ''food'') \<in>
        set [(''NW'', ''wall''), (''N'', ''food''), (''NE'', ''food''), (''W'', ''empty''),
             (''E'', ''dose''), (''SW'', ''wall''), (''S'', ''monster''), (''SE'', ''wall'')]})"
proof -
  let ?D = "[(''NW'', ''wall''), (''N'', ''food''), (''NE'', ''food''), (''W'', ''empty''),
             (''E'', ''dose''), (''SW'', ''wall''), (''S'', ''monster''), (''SE'', ''wall'')]"
  have a: "''N'' \<noteq> []" by simp
  have b: "distinct (map fst ?D)" by simp
  have c: "\<exists>direction. (direction, ''food'') \<in> set ?D"
    by (rule exI[of _ "''N''"]) simp
  from next_command_food_uniform[OF a b c] show ?thesis by (rule conjunct2)
qed

text \<open>
  C6: each of the ten actions maps to a key event with \<open>alt\<close>, \<open>ctrl\<close> and \<open>shift\<close> false,
  and no two of the ten actions map to the same key event.
\<close>

theorem key_from_command_total_injective:
  "(\<forall>command \<in> set actions. \<exists>key_code.
        key_from_command command = Inr \<lparr>code = key_code, alt = False, ctrl = False, shift = False\<rparr>)
    \<and> inj_on key_from_command (set actions) \<and> distinct actions \<and> length actions = 10"
proof -
  have "\<forall>k \<in> set (map key_from_command actions). \<exists>key_code. k = Inr \<lparr>code = key_code, alt = False, ctrl = False, shift = False\<rparr>"
    unfolding key_from_command_actions by (simp add: key_from_code_def)
  then have a: "\<forall>command \<in> set actions. \<exists>key_code.
        key_from_command command = Inr \<lparr>code = key_code, alt = False, ctrl = False, shift = False\<rparr>"
    by simp
  have b: "inj_on key_from_command (set actions) \<and> distinct actions"
    using distinct_keys by (simp add: distinct_map)
  have c: "length actions = 10" by (simp add: actions_def directions_def)
  from a b c show ?thesis by blast
qed

theorem key_from_command_total_injective_witness:
  "\<exists>key_code. key_from_command ''Quit'' = Inr \<lparr>code = key_code, alt = False, ctrl = False, shift = False\<rparr>"
proof -
  have "''Quit'' \<in> set actions" by (simp add: actions_def)
  with key_from_command_total_injective[THEN conjunct1] show ?thesis by (rule bspec)
qed

text \<open>
  C8: for a snapshot whose cell list has \<open>width * height\<close> entries, with exactly one agent
  cell, at column \<open>px\<close> and row \<open>py\<close> away from the edge of the grid,
  \<open>surroundings_from_message\<close> returns a dict whose keys are exactly the eight compass
  directions, each with a value among the seven tile kinds.
\<close>

theorem surroundings_valid_snapshot:
  assumes len: "int (length (cells m)) = width m * height m"
    and inside: "0 < px" "px < width m - 1" "0 < py" "py < height m - 1"
    and player: "cell_type (cells m ! nat (py * width m + px)) = ''player''"
    and only: "\<forall>j < length (cells m). cell_type (cells m ! j) = ''player'' \<longrightarrow> j = nat (py * width m + px)"
  shows "\<exists>d. surroundings_from_message m = Inr d \<and> distinct (map fst d)
           \<and> set (map fst d) = set directions \<and> (\<forall>v \<in> set (map snd d). v \<in> set tile_kinds)"
proof -
  have scan: "scan_grid m (py_range (width m)) (py_range (height m)) None = Inr (Some (px, py))"
    using len _ _ _ _ player only by (rule find_player) (use inside in simp_all)
  have "\<exists>d. classify m px py neighbours = Inr d"
    using len by (rule classify_in_grid) (use inside in \<open>simp add: neighbours_def\<close>)
  then obtain d where d: "classify m px py neighbours = Inr d" ..
  then have "surroundings_from_message m = Inr d"
    using len scan by (simp add: surroundings_from_message_def)
  moreover have keys: "map fst d = directions" using d classify_keys neighbours_keys by metis
  moreover have "distinct (map fst d)" unfolding keys by (simp add: directions_def)
  moreover have "set (map fst d) = set directions" unfolding keys ..
  moreover note classify_values[OF d]
  ultimately show ?thesis by blast
qed

theorem surroundings_valid_snapshot_witness:
  "\<exists>d. surroundings_from_message
          \<lparr>width = 3, height = 3, cells = [''#'', ''.'', ''%'', ''a'', ''@'', ''i'', ''x'', ''?'', ''h'']\<rparr> = Inr d
       \<and> distinct (map fst d) \<and> set (map fst d) = set directions
       \<and> (\<forall>v \<in> set (map snd d). v \<in> set tile_kinds)"
proof -
  let ?m = "\<lparr>width = 3, height = 3, cells = [''#'', ''.'', ''%'', ''a'', ''@'', ''i'', ''x'', ''?'', ''h'']\<rparr>"
  have len: "int (length (cells ?m)) = width ?m * height ?m" by simp
  have player: "cell_type (cells ?m ! nat (1 * width ?m + 1)) = ''player''"
    by (simp add: cell_type_def types_def)
  have only: "\<forall>j < length (cells ?m). cell_type (cells ?m ! j) = ''player'' \<longrightarrow> j = nat (1 * width ?m + 1)"
    by (simp add: cell_type_def types_def nth_Cons' All_less_Suc numeral_eq_Suc)
  show ?thesis
    by (rule surroundings_valid_snapshot[OF len _ _ _ _ player only]) simp_all
qed

text \<open>
  C9: for a trial count \<open>test_count \<ge> 0\<close> (the argument, or 20 without one), the exit
  code is 0 if each of the \<open>test_count\<close> calls of \<open>test_run()\<close> returned \<open>SUCCESS\<close>, and 1
  otherwise: also when a call is interrupted or raises, so that fewer trials complete.
\<close>

theorem main_exit_code:
  assumes "test_count = (case arg of Some n \<Rightarrow> n | None \<Rightarrow> 20)" and "0 \<le> test_count"
  shows "main arg trials = (if \<forall>i < nat test_count. trials i = Inr SUCCESS then 0 else 1)"
proof (cases "\<forall>i < nat test_count. trials i = Inr SUCCESS")
  case True
  then have "\<forall>i \<in> set [0..<nat test_count]. trials i = Inr SUCCESS" by simp
  from run_tests_all_success[OF this, of "\<lparr>success = 0, failure = 0, unexpected = 0\<rparr>"] assms True
  show ?thesis
    by (simp add: main_def return_code_def Let_def)
next
  case False
  then have "\<exists>i \<in> set [0..<nat test_count]. trials i \<noteq> Inr SUCCESS" by auto
  from run_tests_not_all_success[OF this, of "\<lparr>success = 0, failure = 0, unexpected = 0\<rparr>"] assms(2)
  have lt: "success (snd (run_tests trials [0..<nat test_count] \<lparr>success = 0, failure = 0, unexpected = 0\<rparr>)) < test_count"
    by simp
  obtain e res where er: "run_tests trials [0..<nat test_count] \<lparr>success = 0, failure = 0, unexpected = 0\<rparr> = (e, res)"
    by (cases "run_tests trials [0..<nat test_count] \<lparr>success = 0, failure = 0, unexpected = 0\<rparr>")
  with lt have "success res \<noteq> test_count" by simp
  with er assms(1) False show ?thesis
    by (cases e) (simp_all add: main_def return_code_def Let_def)
qed

theorem main_exit_code_witness:
  "main (Some 2) (\<lambda>i. if i = 1 then Inl KeyboardInterrupt else Inr SUCCESS) = 1
   \<and> main (Some 2) (\<lambda>i. Inr SUCCESS) = 0"
proof -
  have a: "(2::int) = (case Some 2 of Some n \<Rightarrow> n | None \<Rightarrow> 20)" by simp
  have b: "(0::int) \<le> 2" by simp
  have c: "\<not> (\<forall>i < nat 2. (if i = 1 then Inl KeyboardInterrupt else Inr SUCCESS) = (Inr SUCCESS :: error + outcome))"
    by (simp add: All_less_Suc numeral_2_eq_2)
  from main_exit_code[OF a b, of "\<lambda>i. if i = 1 then Inl KeyboardInterrupt else Inr SUCCESS"]
    main_exit_code[OF a b, of "\<lambda>i. Inr SUCCESS"] c
  show ?thesis by simp
qed

text \<open>
  C10: on no display, an empty display or a Surroundings, with any previous action and
  any draws, \<open>next_command\<close> returns one of the eight directions, which are neither \<open>Eat\<close>
  nor \<open>Quit\<close>. In a session every command computed is a direction, except that the last
  one may be \<open>Quit\<close>, and then the turn counter has passed \<open>max_turns\<close>: only the turn-limit
  check produces \<open>Quit\<close>, and nothing produces \<open>Eat\<close>.
\<close>

theorem next_command_only_directions:
  assumes "valid_display disp"
  shows "(\<exists>c \<in> set directions. next_command prev disp u r = Inr c)
     \<and> ''Eat'' \<notin> set directions \<and> ''Quit'' \<notin> set directions
     \<and> (\<exists>ds. set ds \<subseteq> set directions
           \<and> (issued (snd (run_game env)) = ds
               \<or> issued (snd (run_game env)) = ds @ [''Quit'']
                   \<and> turns (snd (run_game env)) = 200 + randint 10 200 (max_turns_draw env) + 1))"
  using next_command_direction[OF assms] quit_not_direction run_game_issued
  by (intro conjI)

theorem next_command_only_directions_witness:
  "(\<exists>c \<in> set directions.
      next_command (Some ''N'')
        (Some [(''NW'', ''wall''), (''N'', ''wall''), (''NE'', ''empty''), (''W'', ''wall''),
               (''E'', ''wall''), (''SW'', ''wall''), (''S'', ''empty''), (''SE'', ''wall'')]) 1 3 = Inr c)
     \<and> ''Eat'' \<notin> set directions \<and> ''Quit'' \<notin> set directions
     \<and> (\<exists>ds. set ds \<subseteq> set directions
           \<and> (issued (snd (run_game \<lparr>max_turns_draw = 0,
                  turn_inputs = (\<lambda>t. \<lparr>random_u = 0, random_r = 0, writable = False, reply = None\<rparr>)\<rparr>)) = ds
               \<or> issued (snd (run_game \<lparr>max_turns_draw = 0,
                  turn_inputs = (\<lambda>t. \<lparr>random_u = 0, random_r = 0, writable = False, reply = None\<rparr>)\<rparr>)) = ds @ [''Quit'']
                   \<and> turns (snd (run_game \<lparr>max_turns_draw = 0,
                  turn_inputs = (\<lambda>t. \<lparr>random_u = 0, random_r = 0, writable = False, reply = None\<rparr>)\<rparr>))
                      = 200 + randint 10 200 (max_turns_draw \<lparr>max_turns_draw = 0,
                  turn_inputs = (\<lambda>t. \<lparr>random_u = 0, random_r = 0, writable = False, reply = None\<rparr>)\<rparr>) + 1))"
  by (rule next_command_only_directions) (simp add: valid_display_def is_surroundings_def directions_def)




text \<open>
  C7 fails on the code where \<open>./replays\<close> does not exist: lines 262-263 make the archive
  directory \<open>./replays/bugs\<close> with \<open>os.mkdir\<close>, which makes one directory and not its
  missing parent. For a trial that reaches the replay phase with a replay that exits with
  a nonzero code, \<open>test_run\<close> then raises \<open>FileNotFoundError\<close> after printing the archive
  path: the trial gets no outcome, nothing is archived, and the temporary replay file,
  holding the trace, is not deleted.
\<close>

theorem replay_failure_missing_parent:
  assumes "build_rc env = 0" and "poll_settled env = None"
    and "fst (run_game (session env)) = Inr ended"
    and "poll_after env = None \<or> poll_after env = Some 0"
    and "replay_rc env \<noteq> 0"
    and "target_dir \<notin> dirs w" and "butlast target_dir \<notin> dirs w"
    and "files w (butlast target_dir) = None" and "replay_file env \<noteq> butlast target_dir"
  shows "\<exists>w'. test_run env w = (Inl FileNotFoundError, w')
           \<and> files w' = (files w)(replay_file env \<mapsto> trace env) \<and> dirs w' = dirs w
           \<and> (''Recording crash to: {}'', [APath (bug_path env)]) \<in> set (stdout w')"
proof -
  from test_run_reaches_replay[OF assms(1-4), of w] obtain w1
    where w1: "test_run env w = test_run_replay env w1"
      "files w1 = (files w)(replay_file env \<mapsto> trace env)" "dirs w1 = dirs w"
    by blast
  have "target_dir \<notin> dirs w1" "butlast target_dir \<notin> dirs w1"
    using assms(6,7) w1(3) by simp_all
  moreover have "files w1 (butlast target_dir) = None"
    using assms(8,9) w1(2) by simp
  ultimately obtain w' where w': "test_run_replay env w1 = (Inl FileNotFoundError, w')"
      "files w' = files w1" "dirs w' = dirs w1"
      "(''Recording crash to: {}'', [APath (bug_path env)]) \<in> set (stdout w')"
    using test_run_replay_missing_parent[OF assms(5), of w1] by blast
  have "test_run env w = (Inl FileNotFoundError, w')" using w1(1) w'(1) by simp
  moreover have "files w' = (files w)(replay_file env \<mapsto> trace env)" using w1(2) w'(2) by simp
  moreover have "dirs w' = dirs w" using w1(3) w'(3) by simp
  ultimately show ?thesis using w'(4) by (intro exI conjI)
qed

theorem replay_failure_missing_parent_witness:
  "\<exists>w'. test_run
      \<lparr>build_rc = 0, replay_file = [''tmp'', ''replay''], poll_settled = None,
       game_stdout = [], game_stderr = [],
       session = \<lparr>max_turns_draw = 0,
         turn_inputs = (\<lambda>t. \<lparr>random_u = 0, random_r = 0, writable = True, reply = None\<rparr>)\<rparr>,
       poll_after = None, trace = ''trace'', replay_rc = 1,
       replay_stdout = [], replay_stderr = [], now = ''2026-01-01T00-00-00''\<rparr>
      \<lparr>files = Map.empty, dirs = {}, stdout = []\<rparr> = (Inl FileNotFoundError, w')
     \<and> files w' = (Map.empty)([''tmp'', ''replay''] \<mapsto> ''trace'') \<and> dirs w' = {}
     \<and> (''Recording crash to: {}'', [APath [''.'', ''replays'', ''bugs'', ''2026-01-01T00-00-00'']])
          \<in> set (stdout w')"
proof -
  let ?E = "\<lparr>build_rc = 0, replay_file = [''tmp'', ''replay''], poll_settled = None,
       game_stdout = [], game_stderr = [],
       session = \<lparr>max_turns_draw = 0,
         turn_inputs = (\<lambda>t. \<lparr>random_u = 0, random_r = 0, writable = True, reply = None\<rparr>)\<rparr>,
       poll_after = None, trace = ''trace'', replay_rc = 1,
       replay_stdout = [], replay_stderr = [], now = ''2026-01-01T00-00-00''\<rparr>"
  have b: "build_rc ?E = 0" and p: "poll_settled ?E = None" by simp_all
  have t: "fst (run_game (session ?E)) = Inr TimedOut"
    by (rule run_game_first_turn_times_out) simp_all
  have a: "poll_after ?E = None \<or> poll_after ?E = Some 0" by simp
  have r: "replay_rc ?E \<noteq> 0" by simp
  have d: "target_dir \<notin> dirs \<lparr>files = Map.empty, dirs = {}, stdout = []\<rparr>" "butlast target_dir \<notin> dirs \<lparr>files = Map.empty, dirs = {}, stdout = []\<rparr>"
    "files \<lparr>files = Map.empty, dirs = {}, stdout = []\<rparr> (butlast target_dir) = None" "replay_file ?E \<noteq> butlast target_dir"
    by (simp_all add: target_dir_def)
  from replay_failure_missing_parent[OF b p t a r d]
  show ?thesis by (simp add: bug_path_def target_dir_def)
qed

end
